theory Spec2Isabelle
  imports Main "HOL-Library.Word" "HOL-Library.Multiset"
begin

section \<open>JavaScript strings and the string built-ins the server uses\<close>

text \<open>
  A JavaScript string is a sequence of 16-bit UTF-16 code units; \<open>split\<close>, \<open>trim\<close> and a
  regular expression without the \<open>u\<close> flag all work on code units.
\<close>

type_synonym code_unit = "16 word"
type_synonym jsstring = "code_unit list"

definition str :: "string \<Rightarrow> jsstring" where
  \<comment> \<open>an ASCII literal as a JavaScript string\<close>
  "str s = map (\<lambda>c. word_of_nat (of_char c)) s"

definition hyphen :: code_unit where
  "hyphen = 0x2D"

definition comma :: code_unit where
  "comma = 0x2C"

definition is_lower_alnum :: "code_unit \<Rightarrow> bool" where
  \<comment> \<open>the character class \<open>[a-z0-9]\<close>\<close>
  "is_lower_alnum c \<longleftrightarrow> (0x61 \<le> c \<and> c \<le> 0x7A) \<or> (0x30 \<le> c \<and> c \<le> 0x39)"

definition is_white_space :: "code_unit \<Rightarrow> bool" where
  \<comment> \<open>what \<open>String.prototype.trim\<close> strips: ECMAScript WhiteSpace and LineTerminator\<close>
  "is_white_space c \<longleftrightarrow>
     (0x09 \<le> c \<and> c \<le> 0x0D) \<or> c = 0x20 \<or> c = 0xA0 \<or> c = 0x1680 \<or>
     (0x2000 \<le> c \<and> c \<le> 0x200A) \<or> c = 0x2028 \<or> c = 0x2029 \<or> c = 0x202F \<or>
     c = 0x205F \<or> c = 0x3000 \<or> c = 0xFEFF"

definition js_trim :: "jsstring \<Rightarrow> jsstring" where
  \<comment> \<open>\<open>t.trim()\<close>\<close>
  "js_trim s = rev (dropWhile is_white_space (rev (dropWhile is_white_space s)))"

fun js_split :: "code_unit \<Rightarrow> jsstring \<Rightarrow> jsstring list" where
  \<comment> \<open>\<open>s.split(d)\<close> for a one-character separator: the empty string gives one empty piece\<close>
  "js_split d [] = [[]]"
| "js_split d (c # cs) =
     (if c = d then [] # js_split d cs
      else (c # hd (js_split d cs)) # tl (js_split d cs))"

fun js_join :: "code_unit \<Rightarrow> jsstring list \<Rightarrow> jsstring" where
  \<comment> \<open>the pieces with the separator between them, as \<open>GROUP_CONCAT\<close> concatenates names\<close>
  "js_join d [] = []"
| "js_join d [s] = s"
| "js_join d (s # t # ss) = s @ d # js_join d (t # ss)"

fun code_points :: "jsstring \<Rightarrow> jsstring list" where
  \<comment> \<open>what \<open>for (const c of s)\<close> visits: the code points of the string, a high surrogate
      followed by a low surrogate being one of them\<close>
  "code_points [] = []"
| "code_points [c] = [[c]]"
| "code_points (c # c' # cs) =
     (if 0xD800 \<le> c \<and> c \<le> 0xDBFF \<and> 0xDC00 \<le> c' \<and> c' \<le> 0xDFFF
      then [c, c'] # code_points cs
      else [c] # code_points (c' # cs))"

subsection \<open>The slug\<close>

text \<open>
  \<open>title.toLowerCase().replace(/[^a-z0-9]+/g, '-').replace(/(^-|-$)/g, '')\<close>.
  The first replacement scans from the left; at a character outside \<open>[a-z0-9]\<close> the
  greedy \<open>+\<close> takes the whole run and one hyphen is written for it.
\<close>

function replace_non_alnum_runs :: "jsstring \<Rightarrow> jsstring" where
  "replace_non_alnum_runs [] = []"
| "replace_non_alnum_runs (c # cs) =
     (if is_lower_alnum c then c # replace_non_alnum_runs cs
      else hyphen # replace_non_alnum_runs (dropWhile (\<lambda>x. \<not> is_lower_alnum x) cs))"
  by pat_completeness auto
termination
  by (relation "measure length") (auto simp: less_Suc_eq_le length_dropWhile_le)

text \<open>
  The second replacement removes a hyphen at the very start (\<open>^-\<close>) and a hyphen at the
  very end (\<open>-$\<close>): at most one character at each end.
\<close>

definition strip_edge_hyphens :: "jsstring \<Rightarrow> jsstring" where
  "strip_edge_hyphens s =
     (let s1 = (case s of [] \<Rightarrow> [] | c # cs \<Rightarrow> if c = hyphen then cs else s)
      in if s1 \<noteq> [] \<and> last s1 = hyphen then butlast s1 else s1)"

text \<open>
  \<open>toLowerCase\<close> follows the Unicode case tables, which are not part of the program: the
  slug takes it as a parameter, and what is proved of the slug holds for any lowercasing.
\<close>

definition derive_slug :: "(jsstring \<Rightarrow> jsstring) \<Rightarrow> jsstring \<Rightarrow> jsstring" where
  "derive_slug toLowerCase t = strip_edge_hyphens (replace_non_alnum_runs (toLowerCase t))"

definition ascii_toLowerCase :: "jsstring \<Rightarrow> jsstring" where
  \<comment> \<open>\<open>toLowerCase\<close> on ASCII text: \<open>A\<close>..\<open>Z\<close> to \<open>a\<close>..\<open>z\<close>\<close>
  "ascii_toLowerCase s = map (\<lambda>c. if 0x41 \<le> c \<and> c \<le> 0x5A then c + 0x20 else c) s"

text \<open>
  The slug as the specification words it: the title in lower case is cut into its maximal
  runs of characters inside and outside \<open>[a-z0-9]\<close>, every run outside becomes one hyphen,
  and all hyphens at both ends are trimmed.
\<close>

function maximal_runs :: "('a \<Rightarrow> bool) \<Rightarrow> 'a list \<Rightarrow> 'a list list" where
  "maximal_runs P [] = []"
| "maximal_runs P (x # xs) =
     (x # takeWhile (\<lambda>y. P y = P x) xs) # maximal_runs P (dropWhile (\<lambda>y. P y = P x) xs)"
  by pat_completeness auto
termination
  by (relation "measure (\<lambda>(P, xs). length xs)") (auto simp: less_Suc_eq_le length_dropWhile_le)

definition spec_replace_runs :: "jsstring \<Rightarrow> jsstring" where
  "spec_replace_runs s =
     concat (map (\<lambda>r. if is_lower_alnum (hd r) then r else [hyphen])
               (maximal_runs is_lower_alnum s))"

definition spec_trim_hyphens :: "jsstring \<Rightarrow> jsstring" where
  "spec_trim_hyphens s =
     rev (dropWhile (\<lambda>c. c = hyphen) (rev (dropWhile (\<lambda>c. c = hyphen) s)))"

definition spec_slug :: "(jsstring \<Rightarrow> jsstring) \<Rightarrow> jsstring \<Rightarrow> jsstring" where
  "spec_slug toLowerCase t = spec_trim_hyphens (spec_replace_runs (toLowerCase t))"

text \<open>No hyphen is followed by a hyphen: the relation between neighbours.\<close>

abbreviation (input) no_pair :: "code_unit \<Rightarrow> code_unit \<Rightarrow> bool" where
  "no_pair a b \<equiv> \<not> (a = hyphen \<and> b = hyphen)"

section \<open>The store\<close>

text \<open>
  Modelled from the spec: the module \<open>./db\<close> (the schema of the tables \<open>posts\<close>, \<open>tags\<close> and
  \<open>post_tags\<close>, and the connection with its \<open>get\<close>, \<open>all\<close> and \<open>run\<close>) is not among the
  sources. A table is the list of its rows in insertion order. Identifiers are assigned by
  the store, one more than the largest identifier of the table; \<open>created_at\<close> is filled by
  the store with the current time. No other constraint is declared (no foreign key, no
  uniqueness, no column that refuses NULL), and a statement never fails. A parameter of a
  statement for the name of a tag is a text or NULL.
\<close>

record post_row =
  p_id :: nat
  title :: jsstring
  slug :: jsstring
  content :: "jsstring option"
  excerpt :: "jsstring option"
  featured_image :: "jsstring option"
  status :: jsstring
  created_at :: nat

record tag_row =
  t_id :: nat
  t_name :: "jsstring option"

record post_tag_row =
  pt_post_id :: nat
  pt_tag_id :: nat

text \<open>The statements the server passes to \<open>db.run\<close>, with their parameters.\<close>

datatype stmt =
    InsertPost jsstring jsstring "jsstring option" "jsstring option" "jsstring option"
      jsstring nat
      \<comment> \<open>title, slug, content, excerpt, featured\_image, status; last the time the store
          fills \<open>created_at\<close> with\<close>
  | InsertTag "jsstring option"
  | InsertPostTag nat nat
  | UpdatePost jsstring "jsstring option" "jsstring option" jsstring "jsstring option" nat
      \<comment> \<open>title, content, excerpt, status, the new featured\_image if a file came, id\<close>
  | DeletePostTags nat
  | DeletePost nat

record db =
  posts :: "post_row list"
  tags :: "tag_row list"
  post_tags :: "post_tag_row list"
  executed :: "stmt list"
    \<comment> \<open>the statements run so far, oldest first: a history kept to speak about their order\<close>

record run_result =
  lastID :: nat
  changes :: nat

definition next_id :: "nat list \<Rightarrow> nat" where
  "next_id ids = Suc (fold max ids 0)"

definition set_post_fields ::
  "jsstring \<Rightarrow> jsstring option \<Rightarrow> jsstring option \<Rightarrow> jsstring \<Rightarrow> jsstring option \<Rightarrow>
   post_row \<Rightarrow> post_row" where
  "set_post_fields t c e s img p =
     (let p1 = p\<lparr>title := t, content := c, excerpt := e, status := s\<rparr>
      in case img of None \<Rightarrow> p1 | Some f \<Rightarrow> p1\<lparr>featured_image := Some f\<rparr>)"

text \<open>
  \<open>db.run\<close>: the statement changes the tables and the result tells the identifier of an
  inserted row and the number of rows changed. The server reads \<open>lastID\<close> after the
  insertion of a post and of a tag only, and \<open>changes\<close> after the deletion of a post only.
\<close>

fun db_run :: "stmt \<Rightarrow> db \<Rightarrow> run_result \<times> db" where
  "db_run (InsertPost t sl c e img s now) d =
     (let i = next_id (map p_id (posts d))
      in (\<lparr>lastID = i, changes = 1\<rparr>,
          d\<lparr>posts := posts d @
               [\<lparr>p_id = i, title = t, slug = sl, content = c, excerpt = e,
                 featured_image = img, status = s, created_at = now\<rparr>],
            executed := executed d @ [InsertPost t sl c e img s now]\<rparr>))"
| "db_run (InsertTag n) d =
     (let i = next_id (map t_id (tags d))
      in (\<lparr>lastID = i, changes = 1\<rparr>,
          d\<lparr>tags := tags d @ [\<lparr>t_id = i, t_name = n\<rparr>],
            executed := executed d @ [InsertTag n]\<rparr>))"
| "db_run (InsertPostTag i j) d =
     (\<lparr>lastID = Suc (length (post_tags d)), changes = 1\<rparr>,
      d\<lparr>post_tags := post_tags d @ [\<lparr>pt_post_id = i, pt_tag_id = j\<rparr>],
        executed := executed d @ [InsertPostTag i j]\<rparr>)"
| "db_run (UpdatePost t c e s img i) d =
     (\<lparr>lastID = 0, changes = length (filter (\<lambda>p. p_id p = i) (posts d))\<rparr>,
      d\<lparr>posts := map (\<lambda>p. if p_id p = i then set_post_fields t c e s img p else p) (posts d),
        executed := executed d @ [UpdatePost t c e s img i]\<rparr>)"
| "db_run (DeletePostTags i) d =
     (\<lparr>lastID = 0, changes = length (filter (\<lambda>r. pt_post_id r = i) (post_tags d))\<rparr>,
      d\<lparr>post_tags := filter (\<lambda>r. pt_post_id r \<noteq> i) (post_tags d),
        executed := executed d @ [DeletePostTags i]\<rparr>)"
| "db_run (DeletePost i) d =
     (\<lparr>lastID = 0, changes = length (filter (\<lambda>p. p_id p = i) (posts d))\<rparr>,
      d\<lparr>posts := filter (\<lambda>p. p_id p \<noteq> i) (posts d),
        executed := executed d @ [DeletePost i]\<rparr>)"

subsection \<open>The queries\<close>

text \<open>
  \<open>SELECT p.*, GROUP_CONCAT(t.name) as tags FROM posts p LEFT JOIN post_tags pt ON p.id =
  pt.post_id LEFT JOIN tags t ON pt.tag_id = t.id ... GROUP BY p.id\<close>. \<open>p.id\<close> identifies
  the row, so every post is a group of its own. The rows of the group of a post are the
  tag rows that its associations lead to; an association without a tag row and a tag row
  without a name give a NULL name, which \<open>GROUP_CONCAT\<close> skips, and \<open>GROUP_CONCAT\<close> of no
  name at all is NULL. \<open>joined_tag_names\<close> lists the names of the group as the tables hold
  them.
\<close>

definition non_null :: "'a option list \<Rightarrow> 'a list" where
  "non_null vs = concat (map (\<lambda>v. case v of None \<Rightarrow> [] | Some x \<Rightarrow> [x]) vs)"

definition joined_tag_names :: "db \<Rightarrow> nat \<Rightarrow> jsstring list" where
  "joined_tag_names d i =
     concat (map (\<lambda>r. non_null (map t_name (filter (\<lambda>t. t_id t = pt_tag_id r) (tags d))))
               (filter (\<lambda>r. pt_post_id r = i) (post_tags d)))"

text \<open>
  The query does not say in which order \<open>GROUP_CONCAT\<close> takes the rows of a group: it is
  the order in which the store visits them, which is the store's choice for every
  execution of a query. That choice is a parameter of every read: for the group of post
  \<open>i\<close>, \<open>visit i k\<close> is the rank of the \<open>k\<close>-th name, and the names are concatenated by
  ascending rank.
\<close>

type_synonym visiting = "nat \<Rightarrow> nat \<Rightarrow> nat"

definition visit_order :: "(nat \<Rightarrow> nat) \<Rightarrow> 'a list \<Rightarrow> 'a list" where
  "visit_order rank xs = map snd (sort_key (\<lambda>kx. rank (fst kx)) (enumerate 0 xs))"

definition group_concat :: "jsstring list \<Rightarrow> jsstring option" where
  "group_concat ns = (if ns = [] then None else Some (js_join comma ns))"

definition with_tags :: "visiting \<Rightarrow> db \<Rightarrow> post_row \<Rightarrow> post_row \<times> jsstring option" where
  "with_tags visit d p =
     (p, group_concat (visit_order (visit (p_id p)) (joined_tag_names d (p_id p))))"

fun insert_desc :: "post_row \<Rightarrow> post_row list \<Rightarrow> post_row list" where
  "insert_desc p [] = [p]"
| "insert_desc p (q # qs) =
     (if created_at q \<ge> created_at p then q # insert_desc p qs else p # q # qs)"

definition order_by_created_at_desc :: "post_row list \<Rightarrow> post_row list" where
  \<comment> \<open>\<open>ORDER BY p.created_at DESC\<close>; rows of equal time stay in insertion order\<close>
  "order_by_created_at_desc ps = fold insert_desc ps []"

definition select_all_posts :: "visiting \<Rightarrow> db \<Rightarrow> (post_row \<times> jsstring option) list" where
  "select_all_posts visit d = map (with_tags visit d) (order_by_created_at_desc (posts d))"

definition select_post_by_slug ::
  "visiting \<Rightarrow> jsstring \<Rightarrow> db \<Rightarrow> (post_row \<times> jsstring option) option" where
  \<comment> \<open>\<open>db.get\<close>: the first row of the result, if any\<close>
  "select_post_by_slug visit s d =
     map_option (with_tags visit d) (find (\<lambda>p. slug p = s) (posts d))"

definition select_post_by_id ::
  "visiting \<Rightarrow> nat \<Rightarrow> db \<Rightarrow> (post_row \<times> jsstring option) option" where
  "select_post_by_id visit i d =
     map_option (with_tags visit d) (find (\<lambda>p. p_id p = i) (posts d))"

definition select_tag_by_name :: "jsstring option \<Rightarrow> db \<Rightarrow> tag_row option" where
  \<comment> \<open>\<open>SELECT id FROM tags WHERE name = ?\<close>: NULL equals no name, not even NULL\<close>
  "select_tag_by_name v d =
     (case v of None \<Rightarrow> None | Some n \<Rightarrow> find (\<lambda>t. t_name t = Some n) (tags d))"

section \<open>The Post Service\<close>

record post_json =
  post :: post_row
  tags_array :: "jsstring list"

datatype body =
    PostBody post_json
  | PostsBody "post_json list"
  | SuccessBody
  | ErrorBody string

datatype response = Response (status_code: nat) (body: body)

definition truthy :: "jsstring option \<Rightarrow> bool" where
  \<comment> \<open>a string field in a condition: \<open>undefined\<close>, \<open>null\<close> and the empty string are false\<close>
  "truthy v = (case v of None \<Rightarrow> False | Some s \<Rightarrow> s \<noteq> [])"

definition split_tags :: "post_row \<times> jsstring option \<Rightarrow> post_json" where
  \<comment> \<open>\<open>post.tags = post.tags ? post.tags.split(',') : []\<close>\<close>
  "split_tags r =
     \<lparr>post = fst r,
      tags_array = (if truthy (snd r) then js_split comma (the (snd r)) else [])\<rparr>"

definition get_posts :: "visiting \<Rightarrow> db \<Rightarrow> response" where
  "get_posts visit d = Response 200 (PostsBody (map split_tags (select_all_posts visit d)))"

definition get_post_by_slug :: "visiting \<Rightarrow> jsstring \<Rightarrow> db \<Rightarrow> response" where
  "get_post_by_slug visit s d =
     (case select_post_by_slug visit s d of
        None \<Rightarrow> Response 404 (ErrorBody ''Post not found'')
      | Some r \<Rightarrow> Response 200 (PostBody (split_tags r)))"

text \<open>
  The fields of a request body are strings or absent; \<open>req_file\<close> is the name the upload
  was stored under, if there was one.
\<close>

record post_request =
  req_title :: "jsstring option"
  req_content :: "jsstring option"
  req_excerpt :: "jsstring option"
  req_status :: "jsstring option"
  req_tags :: "jsstring option"
  req_file :: "jsstring option"

text \<open>
  What \<open>JSON.parse\<close> makes of the tags field, as far as the handlers tell values apart.
  They read \<open>tags.length\<close>, compare it with 0 and run \<open>for (const tagName of tags)\<close>;
  every \<open>tagName\<close> becomes a parameter of the statements of the tag loop.
\<close>

datatype tags_value =
    TagsNull
      \<comment> \<open>\<open>null\<close>: reading \<open>tags.length\<close> throws a TypeError\<close>
  | TagsNoLength
      \<comment> \<open>a number, a boolean, or an object whose \<open>length\<close> is absent or not above 0:
          \<open>tags.length > 0\<close> is false\<close>
  | TagsNotIterable
      \<comment> \<open>an object whose \<open>length\<close> is above 0: \<open>for ... of\<close> throws a TypeError\<close>
  | TagsString jsstring
      \<comment> \<open>a string: the loop visits its code points\<close>
  | TagsArray "jsstring option list"
      \<comment> \<open>an array: the loop visits its elements; an element is the text that the statement
          gets for it, or NULL for \<open>null\<close>\<close>

datatype js_error = TypeError

definition loop_values :: "tags_value \<Rightarrow> js_error + jsstring option list" where
  \<comment> \<open>the values the tag loop visits, or the error thrown at \<open>tags.length\<close> or at the head
      of the loop\<close>
  "loop_values v =
     (case v of
        TagsNull \<Rightarrow> Inl TypeError
      | TagsNoLength \<Rightarrow> Inr []
      | TagsNotIterable \<Rightarrow> Inl TypeError
      | TagsString s \<Rightarrow> Inr (map Some (code_points s))
      | TagsArray vs \<Rightarrow> Inr vs)"

text \<open>
  The environment of a request: the two built-ins whose tables are not part of the
  program (\<open>JSON_parse\<close> is \<open>None\<close> where \<open>JSON.parse\<close> throws), the time of the store, and
  the order in which the store visits the rows of a group when the handler fetches the
  post again.
\<close>

record env =
  toLowerCase :: "jsstring \<Rightarrow> jsstring"
  JSON_parse :: "jsstring \<Rightarrow> tags_value option"
  CURRENT_TIMESTAMP :: nat
  visit :: visiting

definition parse_tags :: "env \<Rightarrow> jsstring option \<Rightarrow> tags_value" where
  "parse_tags e field =
     (if truthy field then
        (case JSON_parse e (the field) of
           Some v \<Rightarrow> v
         | None \<Rightarrow>
             (if truthy field
              then TagsArray
                     (map Some (filter (\<lambda>t. t \<noteq> []) (map js_trim (js_split comma (the field)))))
              else TagsArray []))
      else TagsArray [])"

definition link_tag :: "nat \<Rightarrow> jsstring option \<Rightarrow> db \<Rightarrow> db" where
  \<comment> \<open>one turn of the loop over the tag names: insert or get the tag, then associate it\<close>
  "link_tag i n d =
     (let (tag, d1) =
            (case select_tag_by_name n d of
               Some t \<Rightarrow> (t_id t, d)
             | None \<Rightarrow> (let (tagResult, d') = db_run (InsertTag n) d in (lastID tagResult, d')))
      in snd (db_run (InsertPostTag i tag) d1))"

definition link_tags :: "nat \<Rightarrow> jsstring option list \<Rightarrow> db \<Rightarrow> db" where
  \<comment> \<open>the loop over the values it visits\<close>
  "link_tags i ns d = (if length ns > 0 then fold (link_tag i) ns d else d)"

definition tag_loop :: "nat \<Rightarrow> tags_value \<Rightarrow> db \<Rightarrow> js_error + db" where
  \<comment> \<open>\<open>if (tags.length > 0) { for (const tagName of tags) { ... } }\<close>\<close>
  "tag_loop i v d =
     (case loop_values v of Inl err \<Rightarrow> Inl err | Inr ns \<Rightarrow> Inr (link_tags i ns d))"

definition status_or_draft :: "post_request \<Rightarrow> jsstring" where
  \<comment> \<open>\<open>status = 'draft'\<close> in the destructuring: the default stands in for \<open>undefined\<close> only\<close>
  "status_or_draft req = (case req_status req of None \<Rightarrow> str ''draft'' | Some s \<Rightarrow> s)"

definition uploaded_path :: "post_request \<Rightarrow> jsstring option" where
  "uploaded_path req = map_option (\<lambda>f. str ''/uploads/'' @ f) (req_file req)"

definition create_post :: "env \<Rightarrow> post_request \<Rightarrow> db \<Rightarrow> response \<times> db" where
  "create_post e req d =
     (let ts = parse_tags e (req_tags req) in
      case req_title req of
        None \<Rightarrow>
          \<comment> \<open>\<open>title.toLowerCase()\<close> on \<open>undefined\<close> throws a TypeError, caught below\<close>
          (Response 500 (ErrorBody ''Failed to create post''), d)
      | Some t \<Rightarrow>
          (let sl = derive_slug (toLowerCase e) t;
               (result, d1) =
                  db_run (InsertPost t sl (req_content req) (req_excerpt req)
                            (uploaded_path req) (status_or_draft req) (CURRENT_TIMESTAMP e)) d
           in case tag_loop (lastID result) ts d1 of
                Inl err \<Rightarrow>
                  \<comment> \<open>thrown after the post was inserted, caught below\<close>
                  (Response 500 (ErrorBody ''Failed to create post''), d1)
              | Inr d2 \<Rightarrow>
                  (case select_post_by_id (visit e) (lastID result) d2 of
                     None \<Rightarrow> (Response 500 (ErrorBody ''Failed to create post''), d2)
                   | Some r \<Rightarrow> (Response 201 (PostBody (split_tags r)), d2))))"

definition update_post :: "env \<Rightarrow> nat \<Rightarrow> post_request \<Rightarrow> db \<Rightarrow> response \<times> db" where
  "update_post e i req d =
     (let ts = parse_tags e (req_tags req) in
      if \<not> truthy (req_title req) then (Response 400 (ErrorBody ''Title is required''), d)
      else
        (let (r1, d1) =
                db_run (UpdatePost (the (req_title req)) (req_content req) (req_excerpt req)
                          (status_or_draft req) (uploaded_path req) i) d;
             (r2, d2) = db_run (DeletePostTags i) d1
         in case tag_loop i ts d2 of
              Inl err \<Rightarrow>
                \<comment> \<open>thrown after the associations were deleted, caught below\<close>
                (Response 500 (ErrorBody ''Failed to update post''), d2)
            | Inr d3 \<Rightarrow>
                (case select_post_by_id (visit e) i d3 of
                   None \<Rightarrow>
                     \<comment> \<open>\<open>updatedPost.tags\<close> on \<open>undefined\<close> throws a TypeError, caught below\<close>
                     (Response 500 (ErrorBody ''Failed to update post''), d3)
                 | Some r \<Rightarrow> (Response 200 (PostBody (split_tags r)), d3))))"

definition delete_post :: "nat \<Rightarrow> db \<Rightarrow> response \<times> db" where
  "delete_post i d =
     (let (r1, d1) = db_run (DeletePostTags i) d;
          (result, d2) = db_run (DeletePost i) d1
      in if changes result = 0 then (Response 404 (ErrorBody ''Post not found''), d2)
         else (Response 200 SuccessBody, d2))"

subsection \<open>Concrete values for the examples\<close>

definition empty_db :: db where
  "empty_db = \<lparr>posts = [], tags = [], post_tags = [], executed = []\<rparr>"

definition table_order :: visiting where
  \<comment> \<open>the store visits the rows of a group as the tables hold them\<close>
  "table_order i k = k"

definition backwards :: visiting where
  \<comment> \<open>the store visits the rows of a group from the last to the first\<close>
  "backwards i k = 1000 - k"

definition no_json :: "jsstring \<Rightarrow> tags_value option" where
  \<comment> \<open>\<open>JSON.parse\<close> on fields that are not JSON, such as \<open>a, b\<close>: it throws\<close>
  "no_json s = None"

definition ascii_env :: env where
  "ascii_env =
     \<lparr>toLowerCase = ascii_toLowerCase, JSON_parse = no_json, CURRENT_TIMESTAMP = 30,
      visit = table_order\<rparr>"

definition example_post :: "nat \<Rightarrow> string \<Rightarrow> string \<Rightarrow> nat \<Rightarrow> post_row" where
  "example_post i t sl time =
     \<lparr>p_id = i, title = str t, slug = str sl, content = None, excerpt = None,
      featured_image = None, status = str ''draft'', created_at = time\<rparr>"

definition example_db :: db where
  \<comment> \<open>two posts; the first carries the tags \<open>a\<close> and \<open>b\<close>, the second none\<close>
  "example_db =
     \<lparr>posts = [example_post 1 ''First'' ''first'' 10, example_post 2 ''Second'' ''second'' 20],
      tags = [\<lparr>t_id = 1, t_name = Some (str ''a'')\<rparr>, \<lparr>t_id = 2, t_name = Some (str ''b'')\<rparr>],
      post_tags = [\<lparr>pt_post_id = 1, pt_tag_id = 1\<rparr>, \<lparr>pt_post_id = 1, pt_tag_id = 2\<rparr>],
      executed = []\<rparr>"

definition example_request :: "jsstring option \<Rightarrow> jsstring option \<Rightarrow> post_request" where
  "example_request t g =
     \<lparr>req_title = t, req_content = None, req_excerpt = None, req_status = None,
      req_tags = g, req_file = None\<rparr>"

definition parsing_to :: "tags_value \<Rightarrow> jsstring \<Rightarrow> tags_value option" where
  \<comment> \<open>\<open>JSON.parse\<close> on a field that holds the JSON text of the value \<open>v\<close>\<close>
  "parsing_to v s = Some v"

definition json_env :: "tags_value \<Rightarrow> env" where
  "json_env v =
     \<lparr>toLowerCase = ascii_toLowerCase, JSON_parse = parsing_to v, CURRENT_TIMESTAMP = 30,
      visit = table_order\<rparr>"

definition tag_array :: "string list \<Rightarrow> tags_value" where
  \<comment> \<open>an array of ASCII strings\<close>
  "tag_array ts = TagsArray (map (\<lambda>t. Some (str t)) ts)"

subsection \<open>Notions used in the statements\<close>

definition returned_posts :: "response \<Rightarrow> post_json list" where
  \<comment> \<open>the posts in the body of a response\<close>
  "returned_posts r = (case body r of PostBody j \<Rightarrow> [j] | PostsBody js \<Rightarrow> js | _ \<Rightarrow> [])"

definition split_names :: "jsstring list \<Rightarrow> jsstring list" where
  \<comment> \<open>the names of a post's tags, joined by commas and split again; nothing for no name
      and for the empty name alone\<close>
  "split_names ns =
     (if ns = [] \<or> ns = [[]] then [] else js_split comma (js_join comma ns))"

definition linked_tag_id :: "jsstring option \<Rightarrow> db \<Rightarrow> nat" where
  \<comment> \<open>the tag identifier one turn of the tag loop associates the post with\<close>
  "linked_tag_id n d =
     (case select_tag_by_name n d of Some t \<Rightarrow> t_id t | None \<Rightarrow> next_id (map t_id (tags d)))"

definition resolved :: "nat \<Rightarrow> db \<Rightarrow> bool" where
  \<comment> \<open>every association of post \<open>i\<close> leads to a tag row\<close>
  "resolved i d \<longleftrightarrow>
     (\<forall>r \<in> set (post_tags d). pt_post_id r = i \<longrightarrow> pt_tag_id r \<in> t_id ` set (tags d))"

definition is_link_stmt :: "nat \<Rightarrow> jsstring option list \<Rightarrow> stmt \<Rightarrow> bool" where
  \<comment> \<open>a statement of the tag loop for post \<open>i\<close> and the values \<open>ns\<close>\<close>
  "is_link_stmt i ns s =
     (case s of InsertTag n \<Rightarrow> n \<in> set ns | InsertPostTag a b \<Rightarrow> a = i | _ \<Rightarrow> False)"

definition new_post_row :: "env \<Rightarrow> jsstring \<Rightarrow> post_request \<Rightarrow> db \<Rightarrow> post_row" where
  \<comment> \<open>the row that creating a post with title \<open>t\<close> adds\<close>
  "new_post_row e t req d =
     \<lparr>p_id = next_id (map p_id (posts d)), title = t, slug = derive_slug (toLowerCase e) t,
      content = req_content req, excerpt = req_excerpt req,
      featured_image = uploaded_path req, status = status_or_draft req,
      created_at = CURRENT_TIMESTAMP e\<rparr>"

definition update_stmt :: "post_request \<Rightarrow> nat \<Rightarrow> stmt" where
  \<comment> \<open>the UPDATE an update request with a title runs\<close>
  "update_stmt req i =
     UpdatePost (the (req_title req)) (req_content req) (req_excerpt req)
       (status_or_draft req) (uploaded_path req) i"

section \<open>Lemmas about the slug\<close>

lemma hyphen_not_alnum: "\<not> is_lower_alnum hyphen"
  by (simp add: is_lower_alnum_def hyphen_def)

lemma replace_hd_alnum:
  "is_lower_alnum c \<Longrightarrow> replace_non_alnum_runs (c # cs) = c # replace_non_alnum_runs cs"
  by simp

lemma replace_after_run:
  "replace_non_alnum_runs (dropWhile (\<lambda>x. \<not> is_lower_alnum x) cs) = [] \<or>
   hd (replace_non_alnum_runs (dropWhile (\<lambda>x. \<not> is_lower_alnum x) cs)) \<noteq> hyphen"
proof (cases "dropWhile (\<lambda>x. \<not> is_lower_alnum x) cs")
  case Nil
  show ?thesis unfolding Nil by simp
next
  case (Cons a as)
  then have "is_lower_alnum a"
    using hd_dropWhile [of "\<lambda>x. \<not> is_lower_alnum x" cs] by simp
  with Cons show ?thesis
    using hyphen_not_alnum by auto
qed

lemma replace_chars:
  "set (replace_non_alnum_runs s) \<subseteq> {c. is_lower_alnum c} \<union> {hyphen}"
  by (induction s rule: replace_non_alnum_runs.induct) auto

lemma replace_single_hyphens:
  "successively no_pair (replace_non_alnum_runs s)"
proof (induction s rule: replace_non_alnum_runs.induct)
  case 1
  then show ?case by simp
next
  case (2 c cs)
  show ?case
  proof (cases "is_lower_alnum c")
    case True
    with 2 hyphen_not_alnum show ?thesis
      by (auto simp: successively_Cons)
  next
    case False
    with 2 replace_after_run [of cs] show ?thesis
      by (auto simp: successively_Cons)
  qed
qed

lemma replace_alnum_prefix:
  "\<forall>x \<in> set xs. is_lower_alnum x \<Longrightarrow>
   replace_non_alnum_runs (xs @ ys) = xs @ replace_non_alnum_runs ys"
  by (induction xs) auto

lemma replace_eq_spec: "replace_non_alnum_runs s = spec_replace_runs s"
proof (induction "length s" arbitrary: s rule: less_induct)
  case less
  show ?case
  proof (cases s)
    case Nil
    then show ?thesis by (simp add: spec_replace_runs_def)
  next
    case (Cons c cs)
    show ?thesis
    proof (cases "is_lower_alnum c")
      case True
      then have same: "(\<lambda>y. is_lower_alnum y = is_lower_alnum c) = is_lower_alnum"
        by auto
      have "length (dropWhile is_lower_alnum cs) < length s"
        using Cons length_dropWhile_le [of is_lower_alnum cs] by simp
      then have ih: "replace_non_alnum_runs (dropWhile is_lower_alnum cs) =
                     spec_replace_runs (dropWhile is_lower_alnum cs)"
        using less by blast
      have "replace_non_alnum_runs (takeWhile is_lower_alnum cs @ dropWhile is_lower_alnum cs) =
            takeWhile is_lower_alnum cs @ replace_non_alnum_runs (dropWhile is_lower_alnum cs)"
        by (rule replace_alnum_prefix) (auto dest: set_takeWhileD)
      then have "replace_non_alnum_runs cs =
            takeWhile is_lower_alnum cs @ replace_non_alnum_runs (dropWhile is_lower_alnum cs)"
        by simp
      with True Cons ih same show ?thesis
        by (simp add: spec_replace_runs_def)
    next
      case False
      then have same: "(\<lambda>y. is_lower_alnum y = is_lower_alnum c) = (\<lambda>y. \<not> is_lower_alnum y)"
        by auto
      have "length (dropWhile (\<lambda>y. \<not> is_lower_alnum y) cs) < length s"
        using Cons length_dropWhile_le [of "\<lambda>y. \<not> is_lower_alnum y" cs] by simp
      then have ih: "replace_non_alnum_runs (dropWhile (\<lambda>y. \<not> is_lower_alnum y) cs) =
                     spec_replace_runs (dropWhile (\<lambda>y. \<not> is_lower_alnum y) cs)"
        using less by blast
      with False Cons same show ?thesis
        by (simp add: spec_replace_runs_def)
    qed
  qed
qed

lemma drop_leading_hyphen:
  assumes "successively no_pair s"
  shows "dropWhile (\<lambda>c. c = hyphen) s =
         (case s of [] \<Rightarrow> [] | c # cs \<Rightarrow> if c = hyphen then cs else s)"
proof (cases s)
  case Nil
  then show ?thesis by simp
next
  case (Cons c cs)
  with assms have "cs = [] \<or> \<not> (c = hyphen \<and> hd cs = hyphen)"
    by (auto simp: successively_Cons)
  with Cons show ?thesis
    by (cases cs) auto
qed

lemma drop_trailing_hyphen:
  assumes "successively no_pair s"
  shows "rev (dropWhile (\<lambda>c. c = hyphen) (rev s)) =
         (if s \<noteq> [] \<and> last s = hyphen then butlast s else s)"
proof -
  have "(\<lambda>x y. no_pair y x) = no_pair"
    by (intro ext) blast
  with assms have "successively no_pair (rev s)"
    by (simp only: successively_rev)
  from drop_leading_hyphen [OF this] show ?thesis
    by (cases s rule: rev_cases) auto
qed

lemma successively_tl: "successively P s \<Longrightarrow> successively P (tl s)"
  by (cases s) (auto simp: successively_Cons)

lemma strip_eq_trim:
  assumes "successively no_pair s"
  shows "strip_edge_hyphens s = spec_trim_hyphens s"
proof -
  let ?s1 = "case s of [] \<Rightarrow> [] | c # cs \<Rightarrow> if c = hyphen then cs else s"
  have "successively no_pair ?s1"
    using assms successively_tl [OF assms] by (auto split: list.splits)
  from drop_trailing_hyphen [OF this] drop_leading_hyphen [OF assms] show ?thesis
    by (simp add: strip_edge_hyphens_def spec_trim_hyphens_def Let_def)
qed

lemma trim_both_ends:
  fixes P :: "'a \<Rightarrow> bool"
  defines "r \<equiv> \<lambda>s. rev (dropWhile P (rev (dropWhile P s)))"
  shows "r s \<noteq> [] \<Longrightarrow> \<not> P (hd (r s)) \<and> \<not> P (last (r s))"
proof -
  assume nonempty: "r s \<noteq> []"
  let ?m = "dropWhile P s"
  let ?k = "dropWhile P (rev ?m)"
  have k: "?k \<noteq> []"
    using nonempty by (simp add: r_def)
  have "rev ?k @ rev (takeWhile P (rev ?m)) = rev (takeWhile P (rev ?m) @ ?k)"
    by (simp only: rev_append)
  also have "\<dots> = rev (rev ?m)"
    by (simp only: takeWhile_dropWhile_id)
  finally have split: "?m = rev ?k @ rev (takeWhile P (rev ?m))"
    by (simp only: rev_rev_ident)
  have "hd ?m = hd (rev ?k)"
    using k arg_cong [OF split, of hd] by simp
  moreover have "?m \<noteq> []"
  proof
    assume e: "?m = []"
    have "?k = []" unfolding e by simp
    with k show False ..
  qed
  then have "\<not> P (hd ?m)"
    by (rule hd_dropWhile)
  moreover have "\<not> P (hd ?k)"
    using k by (rule hd_dropWhile)
  then have "\<not> P (last (rev ?k))"
    using k by (simp add: last_rev)
  ultimately show ?thesis
    by (simp add: r_def)
qed

lemma trim_no_edge_hyphen:
  "\<not> (\<exists>ys. spec_trim_hyphens s = hyphen # ys) \<and> \<not> (\<exists>xs. spec_trim_hyphens s = xs @ [hyphen])"
proof -
  have "spec_trim_hyphens s \<noteq> [] \<Longrightarrow>
        hd (spec_trim_hyphens s) \<noteq> hyphen \<and> last (spec_trim_hyphens s) \<noteq> hyphen"
    unfolding spec_trim_hyphens_def by (rule trim_both_ends)
  then show ?thesis by auto
qed

lemma sublist_chars:
  "set (strip_edge_hyphens s) \<subseteq> set s"
  by (auto simp: strip_edge_hyphens_def Let_def split: list.splits if_splits dest: in_set_butlastD)

lemma strip_single_hyphens:
  assumes "successively no_pair s"
  shows "successively no_pair (strip_edge_hyphens s)"
proof -
  let ?s1 = "case s of [] \<Rightarrow> [] | c # cs \<Rightarrow> if c = hyphen then cs else s"
  have s1: "successively no_pair ?s1"
    using assms successively_tl [OF assms] by (auto split: list.splits)
  have "successively no_pair (butlast ?s1)"
    using s1 by (cases ?s1 rule: rev_cases) (auto simp: successively_append_iff)
  with s1 show ?thesis
    by (simp add: strip_edge_hyphens_def Let_def)
qed

lemma successively_no_double:
  "successively no_pair s \<Longrightarrow> \<not> (\<exists>xs ys. s = xs @ [hyphen, hyphen] @ ys)"
  by (auto simp: successively_append_iff)

lemma derive_slug_shape:
  "derive_slug lc t = spec_slug lc t \<and>
   set (derive_slug lc t) \<subseteq> {c. is_lower_alnum c} \<union> {hyphen} \<and>
   \<not> (\<exists>xs ys. derive_slug lc t = xs @ [hyphen, hyphen] @ ys) \<and>
   \<not> (\<exists>ys. derive_slug lc t = hyphen # ys) \<and>
   \<not> (\<exists>xs. derive_slug lc t = xs @ [hyphen])"
proof -
  let ?r = "replace_non_alnum_runs (lc t)"
  have single: "successively no_pair ?r"
    by (rule replace_single_hyphens)
  have eq: "derive_slug lc t = spec_slug lc t"
    using strip_eq_trim [OF single]
    by (simp add: derive_slug_def spec_slug_def replace_eq_spec)
  have chars: "set (derive_slug lc t) \<subseteq> {c. is_lower_alnum c} \<union> {hyphen}"
    using sublist_chars [of ?r] replace_chars [of "lc t"]
    unfolding derive_slug_def by (rule subset_trans)
  have no_double: "\<not> (\<exists>xs ys. derive_slug lc t = xs @ [hyphen, hyphen] @ ys)"
    using successively_no_double [OF strip_single_hyphens [OF single]]
    by (simp add: derive_slug_def)
  have edges: "\<not> (\<exists>ys. derive_slug lc t = hyphen # ys) \<and>
               \<not> (\<exists>xs. derive_slug lc t = xs @ [hyphen])"
    using trim_no_edge_hyphen [of "spec_replace_runs (lc t)"] eq
    by (simp add: spec_slug_def)
  from eq chars no_double edges show ?thesis by (intro conjI) simp_all
qed

section \<open>The store and the tag loop\<close>

subsection \<open>Identifiers\<close>

lemma fold_max_bounds: "a \<le> fold max ids a \<and> (\<forall>x \<in> set ids. x \<le> fold max ids (a::nat))"
proof (induction ids arbitrary: a)
  case Nil
  then show ?case by simp
next
  case (Cons y ys)
  from Cons [of "max y a"] show ?case
    by (auto intro: order_trans [OF max.cobounded1] order_trans [OF max.cobounded2])
qed

lemma next_id_fresh: "next_id ids \<notin> set ids"
  using fold_max_bounds [of 0 ids] by (auto simp: next_id_def)

lemma find_appended_fresh:
  "\<forall>x \<in> set xs. f x \<noteq> k \<Longrightarrow> f y = k \<Longrightarrow> find (\<lambda>x. f x = k) (xs @ [y]) = Some y"
  by (induction xs) auto

lemma filter_key_unique:
  "distinct (map f xs) \<Longrightarrow> x \<in> set xs \<Longrightarrow> filter (\<lambda>y. f y = f x) xs = [x]"
proof (induction xs)
  case Nil
  then show ?case by simp
next
  case (Cons a as)
  show ?case
  proof (cases "a = x")
    case True
    with Cons.prems have "f x \<notin> f ` set as" by simp
    then have "\<forall>y \<in> set as. f y \<noteq> f x" by (metis imageI)
    then have "filter (\<lambda>y. f y = f x) as = []"
      by (simp add: filter_empty_conv)
    with True show ?thesis by simp
  next
    case False
    with Cons.prems have mem: "x \<in> set as" by simp
    with Cons.prems have "f a \<noteq> f x" by (metis distinct.simps(2) imageI list.simps(9) list.set_map)
    moreover from Cons mem have "filter (\<lambda>y. f y = f x) as = [x]" by simp
    ultimately show ?thesis by simp
  qed
qed

lemma find_SomeD: "find P xs = Some x \<Longrightarrow> x \<in> set xs \<and> P x"
  by (induction xs) (auto split: if_splits)

subsection \<open>Values that may be NULL\<close>

lemma non_null_simps [simp]:
  "non_null [] = []"
  "non_null (None # vs) = non_null vs"
  "non_null (Some x # vs) = x # non_null vs"
  "non_null (vs @ ws) = non_null vs @ non_null ws"
  "non_null (map Some xs) = xs"
  by (simp_all add: non_null_def) (induction xs, simp_all)

lemma set_non_null: "set (non_null vs) = {x. Some x \<in> set vs}"
  by (induction vs) (auto simp: non_null_def split: option.splits)

lemma select_tag_by_name_None:
  "select_tag_by_name v d = None \<longleftrightarrow> v = None \<or> v \<notin> t_name ` set (tags d)"
  by (cases v) (auto simp: select_tag_by_name_def find_None_iff image_iff)

lemma select_tag_by_name_Some:
  "select_tag_by_name v d = Some t \<Longrightarrow> t \<in> set (tags d) \<and> t_name t = v \<and> v \<noteq> None"
  by (cases v) (auto simp: select_tag_by_name_def dest: find_SomeD)

subsection \<open>One turn of the tag loop\<close>

lemma link_tag_posts [simp]: "posts (link_tag i n d) = posts d"
  by (simp add: link_tag_def Let_def split: option.splits)

lemma link_tag_tags:
  "tags (link_tag i n d) =
     (if select_tag_by_name n d = None
      then tags d @ [\<lparr>t_id = next_id (map t_id (tags d)), t_name = n\<rparr>]
      else tags d)"
  by (simp add: link_tag_def Let_def split: option.splits)

lemma link_tag_post_tags:
  "post_tags (link_tag i n d) =
     post_tags d @ [\<lparr>pt_post_id = i, pt_tag_id = linked_tag_id n d\<rparr>]"
  by (simp add: link_tag_def Let_def linked_tag_id_def split: option.splits)

lemma link_tag_executed:
  "executed (link_tag i n d) =
     executed d @
       (if select_tag_by_name n d = None then [InsertTag n] else []) @
       [InsertPostTag i (linked_tag_id n d)]"
  by (simp add: link_tag_def Let_def linked_tag_id_def split: option.splits)

lemma fresh_tag_id: "filter (\<lambda>t. t_id t = next_id (map t_id (tags d))) (tags d) = []"
proof -
  have "\<forall>t \<in> set (tags d). t_id t \<noteq> next_id (map t_id (tags d))"
    using next_id_fresh [of "map t_id (tags d)"] by force
  then show ?thesis
    by (simp add: filter_empty_conv)
qed

lemma linked_tag_id_names:
  assumes "distinct (map t_id (tags d))"
  shows "non_null (map t_name (filter (\<lambda>t. t_id t = linked_tag_id n d) (tags (link_tag i n d)))) =
           non_null [n]"
proof (cases "select_tag_by_name n d")
  case None
  then show ?thesis
    by (simp add: link_tag_tags linked_tag_id_def fresh_tag_id)
next
  case (Some t)
  then have t: "t \<in> set (tags d)" "t_name t = n"
    by (auto dest: select_tag_by_name_Some)
  have "tags (link_tag i n d) = tags d"
    using Some by (simp add: link_tag_tags)
  moreover have "filter (\<lambda>y. t_id y = t_id t) (tags d) = [t]"
    using assms t(1) by (rule filter_key_unique)
  ultimately show ?thesis
    using Some t by (simp add: linked_tag_id_def)
qed

lemma link_tag_keeps_old_names:
  assumes "k \<in> t_id ` set (tags d)"
  shows "filter (\<lambda>t. t_id t = k) (tags (link_tag i n d)) = filter (\<lambda>t. t_id t = k) (tags d)"
proof -
  have "k \<noteq> next_id (map t_id (tags d))"
    using assms next_id_fresh [of "map t_id (tags d)"] by force
  then show ?thesis
    by (simp add: link_tag_tags)
qed

lemma link_tag_distinct_ids:
  "distinct (map t_id (tags d)) \<Longrightarrow> distinct (map t_id (tags (link_tag i n d)))"
  using next_id_fresh [of "map t_id (tags d)"] by (simp add: link_tag_tags)

lemma link_tag_distinct_names:
  assumes "distinct (non_null (map t_name (tags d)))"
  shows "distinct (non_null (map t_name (tags (link_tag i n d))))"
proof (cases n)
  case None
  with assms show ?thesis
    by (simp add: link_tag_tags)
next
  case (Some m)
  have "select_tag_by_name n d = None \<Longrightarrow> m \<notin> set (non_null (map t_name (tags d)))"
    using Some by (simp add: select_tag_by_name_None set_non_null)
  with assms Some show ?thesis
    by (simp add: link_tag_tags)
qed

lemma linked_tag_id_present: "linked_tag_id n d \<in> t_id ` set (tags (link_tag i n d))"
  by (cases "select_tag_by_name n d")
    (auto simp: linked_tag_id_def link_tag_tags dest: select_tag_by_name_Some)

lemma linked_tag_row:
  "\<exists>t \<in> set (tags (link_tag i n d)). t_name t = n \<and> t_id t = linked_tag_id n d"
  by (cases "select_tag_by_name n d")
    (auto simp: linked_tag_id_def link_tag_tags dest: select_tag_by_name_Some)

lemma link_tag_tags_grow: "set (tags d) \<subseteq> set (tags (link_tag i n d))"
  by (auto simp: link_tag_tags)

lemma link_tag_resolved:
  assumes "resolved i d"
  shows "resolved i (link_tag i n d)"
  using assms link_tag_tags_grow [of d i n] linked_tag_id_present [of n d i]
  unfolding resolved_def link_tag_post_tags by auto

lemma link_tag_joined:
  assumes ids: "distinct (map t_id (tags d))" and res: "resolved i d"
  shows "joined_tag_names (link_tag i n d) i = joined_tag_names d i @ non_null [n]"
proof -
  let ?d = "link_tag i n d"
  let ?names = "\<lambda>e r. non_null (map t_name (filter (\<lambda>t. t_id t = pt_tag_id r) (tags e)))"
  have old: "map (?names ?d) (filter (\<lambda>r. pt_post_id r = i) (post_tags d)) =
             map (?names d) (filter (\<lambda>r. pt_post_id r = i) (post_tags d))"
    using res by (auto simp: resolved_def link_tag_keeps_old_names)
  have "joined_tag_names ?d i =
          concat (map (?names ?d) (filter (\<lambda>r. pt_post_id r = i) (post_tags d))) @
          non_null (map t_name (filter (\<lambda>t. t_id t = linked_tag_id n d) (tags ?d)))"
    by (simp add: joined_tag_names_def link_tag_post_tags)
  also have "\<dots> = concat (map (?names d) (filter (\<lambda>r. pt_post_id r = i) (post_tags d))) @
                     non_null [n]"
    by (simp only: old linked_tag_id_names [OF ids])
  finally show ?thesis
    by (simp add: joined_tag_names_def)
qed

subsection \<open>The whole loop\<close>

lemma link_tags_fold: "link_tags i ns d = fold (link_tag i) ns d"
  by (cases ns) (simp_all add: link_tags_def)

lemma link_tags_joined:
  "distinct (map t_id (tags d)) \<Longrightarrow> resolved i d \<Longrightarrow>
   joined_tag_names (link_tags i ns d) i = joined_tag_names d i @ non_null ns"
  unfolding link_tags_fold
proof (induction ns arbitrary: d)
  case Nil
  then show ?case by simp
next
  case (Cons n ns)
  from Cons.prems have "distinct (map t_id (tags (link_tag i n d)))"
    and "resolved i (link_tag i n d)"
    by (auto intro: link_tag_distinct_ids link_tag_resolved)
  then have "joined_tag_names (fold (link_tag i) ns (link_tag i n d)) i =
             joined_tag_names (link_tag i n d) i @ non_null ns"
    by (rule Cons.IH)
  with Cons.prems show ?case
    by (cases n) (simp_all add: link_tag_joined)
qed

lemma link_tags_posts [simp]: "posts (link_tags i ns d) = posts d"
  unfolding link_tags_fold by (induction ns arbitrary: d) simp_all

lemma link_tags_other_posts:
  "filter (\<lambda>r. pt_post_id r \<noteq> i) (post_tags (link_tags i ns d)) =
   filter (\<lambda>r. pt_post_id r \<noteq> i) (post_tags d)"
  unfolding link_tags_fold by (induction ns arbitrary: d) (simp_all add: link_tag_post_tags)

lemma link_tags_count:
  "length (filter (\<lambda>r. pt_post_id r = i) (post_tags (link_tags i ns d))) =
   length (filter (\<lambda>r. pt_post_id r = i) (post_tags d)) + length ns"
  unfolding link_tags_fold by (induction ns arbitrary: d) (simp_all add: link_tag_post_tags)

lemma link_tags_distinct_ids:
  "distinct (map t_id (tags d)) \<Longrightarrow> distinct (map t_id (tags (link_tags i ns d)))"
  unfolding link_tags_fold by (induction ns arbitrary: d) (simp_all add: link_tag_distinct_ids)

lemma link_tags_distinct_names:
  "distinct (non_null (map t_name (tags d))) \<Longrightarrow>
   distinct (non_null (map t_name (tags (link_tags i ns d))))"
  unfolding link_tags_fold by (induction ns arbitrary: d) (simp_all add: link_tag_distinct_names)

lemma is_link_stmt_simps:
  "is_link_stmt i ns (InsertTag n) = (n \<in> set ns)"
  "is_link_stmt i ns (InsertPostTag a b) = (a = i)"
  by (simp_all add: is_link_stmt_def)

lemma link_tags_executed:
  "\<exists>rest. executed (link_tags i ns d) = executed d @ rest \<and> list_all (is_link_stmt i ns) rest"
  unfolding link_tags_fold
proof (induction ns arbitrary: d)
  case Nil
  then show ?case by simp
next
  case (Cons n ns)
  obtain rest where rest: "executed (fold (link_tag i) ns (link_tag i n d)) =
      executed (link_tag i n d) @ rest" "list_all (is_link_stmt i ns) rest"
    using Cons [of "link_tag i n d"] by blast
  have "list_all (is_link_stmt i (n # ns)) rest"
    using rest(2) by (auto simp: list_all_iff is_link_stmt_def split: stmt.splits)
  with rest(1) show ?case
    by (simp add: link_tag_executed is_link_stmt_simps)
qed

section \<open>Reading posts\<close>

subsection \<open>Splitting and joining\<close>

lemma js_split_not_Nil [simp]: "js_split d s \<noteq> []"
  by (induction s) auto

lemma js_split_no_separator: "d \<notin> set s \<Longrightarrow> js_split d s = [s]"
  by (induction s) auto

lemma js_split_piece: "d \<notin> set s \<Longrightarrow> js_split d (s @ d # r) = s # js_split d r"
  by (induction s) auto

lemma js_split_join:
  "ns \<noteq> [] \<Longrightarrow> \<forall>n \<in> set ns. d \<notin> set n \<Longrightarrow> js_split d (js_join d ns) = ns"
  by (induction d ns rule: js_join.induct) (auto simp: js_split_no_separator js_split_piece)

lemma length_js_split: "length (js_split d s) = Suc (count_list s d)"
proof (induction s)
  case Nil
  then show ?case by simp
next
  case (Cons c cs)
  have "length (tl (js_split d cs)) = count_list cs d"
    using Cons by simp
  then show ?case using Cons by simp
qed

lemma count_js_join:
  "ns \<noteq> [] \<Longrightarrow>
   Suc (count_list (js_join d ns) d) = length ns + sum_list (map (\<lambda>n. count_list n d) ns)"
  by (induction d ns rule: js_join.induct) auto

lemma count_list_pos: "x \<in> set xs \<Longrightarrow> count_list xs x > 0"
  using count_list_0_iff [of xs x] by (cases "count_list xs x") auto

lemma js_join_Nil_iff: "js_join d ns = [] \<longleftrightarrow> ns = [] \<or> ns = [[]]"
  by (induction d ns rule: js_join.induct) auto

lemma split_names_identity:
  "split_names ns = ns \<longleftrightarrow> (\<forall>n \<in> set ns. comma \<notin> set n) \<and> ns \<noteq> [[]]"
proof (cases "ns = [] \<or> ns = [[]]")
  case True
  then show ?thesis by (auto simp: split_names_def)
next
  case False
  show ?thesis
  proof (cases "\<forall>n \<in> set ns. comma \<notin> set n")
    case True
    with False show ?thesis
      by (simp add: split_names_def js_split_join)
  next
    case has_comma: False
    then obtain n where n: "n \<in> set ns" "comma \<in> set n" by blast
    then have "count_list n comma > 0"
      by (simp add: count_list_pos)
    then have "sum_list (map (\<lambda>n. count_list n comma) ns) > 0"
      using n(1) by (induction ns) auto
    then have "length (js_split comma (js_join comma ns)) > length ns"
      using False count_js_join [of ns comma] by (simp add: length_js_split)
    then have "js_split comma (js_join comma ns) \<noteq> ns" by auto
    with False has_comma show ?thesis
      by (simp add: split_names_def)
  qed
qed

lemma split_names_comma:
  "comma \<in> set n \<Longrightarrow> length (split_names [n]) > 1"
proof -
  assume "comma \<in> set n"
  then have "count_list n comma > 0" "n \<noteq> []"
    by (auto simp: count_list_pos)
  then show ?thesis
    by (simp add: split_names_def length_js_split)
qed

lemma length_split_names:
  "ns \<noteq> [] \<Longrightarrow> ns \<noteq> [[]] \<Longrightarrow>
   length (split_names ns) = length ns + sum_list (map (\<lambda>n. count_list n comma) ns)"
  using count_js_join [of ns comma] by (simp add: split_names_def length_js_split)

lemma sum_list_count_zero:
  "sum_list (map (\<lambda>n. count_list n c) ns) = 0 \<longleftrightarrow> (\<forall>n \<in> set ns. c \<notin> set n)"
  by (induction ns) (auto simp: count_list_0_iff)

lemma mset_single_Nil: "mset ns = mset [[]] \<longleftrightarrow> ns = [[]]"
  by (cases ns) auto

lemma mset_single: "mset xs = mset [x] \<Longrightarrow> xs = [x]"
  by (cases xs) auto

lemma split_names_same_names:
  assumes "mset ns = mset ms"
  shows "mset (split_names ns) = mset ms \<longleftrightarrow> (\<forall>n \<in> set ms. comma \<notin> set n) \<and> ms \<noteq> [[]]"
proof -
  have sets: "set ns = set ms"
    using assms by (rule mset_eq_setD)
  have lens: "length ns = length ms"
    using assms by (rule mset_eq_length)
  have single: "ns = [[]] \<longleftrightarrow> ms = [[]]"
    using assms mset_single_Nil [of ns] mset_single_Nil [of ms] by auto
  show ?thesis
  proof
    assume eq: "mset (split_names ns) = mset ms"
    then have len: "length (split_names ns) = length ns"
      using lens mset_eq_length by fastforce
    have "ns \<noteq> [[]]"
      using len by (auto simp: split_names_def)
    moreover have "\<forall>n \<in> set ns. comma \<notin> set n"
    proof (cases "ns = []")
      case True
      then show ?thesis by simp
    next
      case False
      with \<open>ns \<noteq> [[]]\<close> len have "sum_list (map (\<lambda>n. count_list n comma) ns) = 0"
        by (simp add: length_split_names)
      then show ?thesis
        by (simp only: sum_list_count_zero)
    qed
    ultimately show "(\<forall>n \<in> set ms. comma \<notin> set n) \<and> ms \<noteq> [[]]"
      using sets single by simp
  next
    assume "(\<forall>n \<in> set ms. comma \<notin> set n) \<and> ms \<noteq> [[]]"
    then have "(\<forall>n \<in> set ns. comma \<notin> set n) \<and> ns \<noteq> [[]]"
      using sets single by simp
    then have "split_names ns = ns"
      using split_names_identity [of ns] by blast
    with assms show "mset (split_names ns) = mset ms"
      by simp
  qed
qed

subsection \<open>The order of a group\<close>

lemma mset_visit_order [simp]: "mset (visit_order rank xs) = mset xs"
proof -
  have "mset (visit_order rank xs) =
          image_mset snd (mset (sort_key (\<lambda>kx. rank (fst kx)) (enumerate 0 xs)))"
    by (simp only: visit_order_def mset_map)
  also have "\<dots> = image_mset snd (mset (enumerate 0 xs))"
    by (simp only: mset_sort)
  also have "\<dots> = mset (map snd (enumerate 0 xs))"
    by (simp only: mset_map)
  finally show ?thesis
    by (simp only: map_snd_enumerate)
qed

lemma pairs_in_order:
  "mset ys = mset (map snd es) \<Longrightarrow> \<exists>zs. mset zs = mset es \<and> map snd zs = ys"
proof (induction ys arbitrary: es)
  case Nil
  then show ?case by simp
next
  case (Cons y ys)
  have "set (y # ys) = set (map snd es)"
    using Cons.prems by (rule mset_eq_setD)
  moreover have "y \<in> set (y # ys)"
    by simp
  ultimately have "y \<in> set (map snd es)"
    by (simp only:)
  then obtain e where e: "e \<in> set es" "snd e = y"
    by auto
  have "mset es = add_mset e (mset (remove1 e es))"
    using e(1) by simp
  then have "image_mset snd (mset es) = image_mset snd (add_mset e (mset (remove1 e es)))"
    by (rule arg_cong)
  then have "mset (map snd es) = add_mset y (mset (map snd (remove1 e es)))"
    using e(2) by simp
  with Cons.prems have "mset ys = mset (map snd (remove1 e es))"
    by simp
  then obtain zs where zs: "mset zs = mset (remove1 e es)" "map snd zs = ys"
    using Cons.IH by blast
  have "mset (e # zs) = mset es"
    using e(1) zs(1) by simp
  moreover have "map snd (e # zs) = y # ys"
    using e(2) zs(2) by simp
  ultimately have "mset (e # zs) = mset es \<and> map snd (e # zs) = y # ys"
    by (rule conjI)
  then show ?case by (rule exI)
qed

lemma position_of_distinct:
  "distinct ks \<Longrightarrow> i < length ks \<Longrightarrow> length (takeWhile (\<lambda>k. k \<noteq> ks ! i) ks) = i"
proof (induction ks arbitrary: i)
  case Nil
  then show ?case by simp
next
  case (Cons k ks)
  show ?case
  proof (cases i)
    case 0
    then show ?thesis by simp
  next
    case (Suc m)
    with Cons.prems have "k \<noteq> ks ! m" "m < length ks" "distinct ks"
      by auto
    with Cons.IH [of m] Suc show ?thesis by simp
  qed
qed

lemma singleton_filter:
  "distinct (map f xs) \<Longrightarrow> x \<in> set xs \<Longrightarrow> filter (\<lambda>y. f x = f y) xs = [x]"
  using filter_key_unique [of f xs x] by (simp add: eq_commute)

text \<open>
  The parameter leaves the order open altogether: every arrangement of the names of a
  group is the order of some ranks.
\<close>

lemma every_order_is_visited:
  assumes "mset ys = mset xs"
  shows "\<exists>rank. visit_order rank xs = ys"
proof -
  let ?es = "enumerate 0 xs"
  have "mset ys = mset (map snd ?es)"
    using assms by (simp only: map_snd_enumerate)
  then obtain zs where zs: "mset zs = mset ?es" "map snd zs = ys"
    using pairs_in_order by blast
  define rank where "rank k = length (takeWhile (\<lambda>i. i \<noteq> k) (map fst zs))" for k
  let ?f = "\<lambda>kx. rank (fst kx)"
  have "image_mset fst (mset zs) = image_mset fst (mset ?es)"
    using zs(1) by (rule arg_cong)
  then have same_keys: "mset (map fst zs) = mset (map fst ?es)"
    by (simp only: mset_map)
  have dist_es: "distinct (map fst ?es)"
    by (simp add: map_fst_enumerate)
  have dist: "distinct (map fst zs)"
    using mset_eq_imp_distinct_iff [OF same_keys] dist_es by (simp only:)
  have pos: "rank (fst (zs ! i)) = i" if "i < length zs" for i
    using position_of_distinct [OF dist, of i] that by (simp add: rank_def)
  have "map ?f zs = [0..<length zs]"
    by (rule nth_equalityI) (simp_all add: pos)
  then have sorted: "sorted (map ?f zs)"
    by simp
  have inj: "distinct (map ?f zs)"
    using \<open>map ?f zs = [0..<length zs]\<close> by simp
  have inj_es: "distinct (map ?f ?es)"
  proof -
    have "image_mset ?f (mset zs) = image_mset ?f (mset ?es)"
      using zs(1) by (rule arg_cong)
    then have "mset (map ?f zs) = mset (map ?f ?es)"
      by (simp only: mset_map)
    from mset_eq_imp_distinct_iff [OF this] inj show ?thesis
      by (simp only:)
  qed
  have stable: "filter (\<lambda>x. ?f k = ?f x) zs = filter (\<lambda>x. ?f k = ?f x) ?es" if "k \<in> set zs" for k
  proof -
    have "set zs = set ?es"
      using zs(1) by (rule mset_eq_setD)
    with that have "k \<in> set ?es"
      by (simp only:)
    then have "filter (\<lambda>x. ?f k = ?f x) ?es = [k]"
      using inj_es by (rule singleton_filter [rotated])
    moreover have "filter (\<lambda>x. ?f k = ?f x) zs = [k]"
      using inj that by (rule singleton_filter)
    ultimately show ?thesis by simp
  qed
  have "sort_key ?f ?es = zs"
    using zs(1) stable sorted by (rule properties_for_sort_key)
  then have "visit_order rank xs = ys"
    by (simp add: visit_order_def zs(2))
  then show ?thesis by (rule exI [of _ rank])
qed

lemma visit_order_Nil [simp]: "visit_order rank [] = []"
  by (simp add: visit_order_def)

lemma visit_order_Nil_iff [simp]: "visit_order rank xs = [] \<longleftrightarrow> xs = []"
  using mset_visit_order [of rank xs] by (metis mset_zero_iff)

lemma set_visit_order [simp]: "set (visit_order rank xs) = set xs"
  using mset_visit_order [of rank xs] by (rule mset_eq_setD)

lemma visit_order_single [simp]: "visit_order rank [x] = [x]"
  by (simp add: visit_order_def)

subsection \<open>What a read returns\<close>

lemma split_tags_with_tags:
  "post (split_tags (with_tags w d p)) = p"
  "tags_array (split_tags (with_tags w d p)) =
     split_names (visit_order (w (p_id p)) (joined_tag_names d (p_id p)))"
  by (auto simp: split_tags_def with_tags_def group_concat_def truthy_def split_names_def
      js_join_Nil_iff)

lemma mset_insert_desc: "mset (insert_desc p qs) = add_mset p (mset qs)"
  by (induction qs) auto

lemma mset_order_by: "mset (fold insert_desc ps acc) = mset ps + mset acc"
  by (induction ps arbitrary: acc) (auto simp: mset_insert_desc)

lemma set_insert_desc: "set (insert_desc p qs) = insert p (set qs)"
  by (induction qs) auto

lemma sorted_insert_desc:
  "sorted_wrt (\<lambda>a b. created_at a \<ge> created_at b) qs \<Longrightarrow>
   sorted_wrt (\<lambda>a b. created_at a \<ge> created_at b) (insert_desc p qs)"
  by (induction qs) (auto simp: set_insert_desc)

lemma sorted_order_by_fold:
  "sorted_wrt (\<lambda>a b. created_at a \<ge> created_at b) acc \<Longrightarrow>
   sorted_wrt (\<lambda>a b. created_at a \<ge> created_at b) (fold insert_desc ps acc)"
  by (induction ps arbitrary: acc) (auto simp: sorted_insert_desc)

lemma order_by_created_at_desc_props:
  "mset (order_by_created_at_desc ps) = mset ps"
  "set (order_by_created_at_desc ps) = set ps"
  "sorted_wrt (\<lambda>a b. created_at a \<ge> created_at b) (order_by_created_at_desc ps)"
proof -
  show m: "mset (order_by_created_at_desc ps) = mset ps"
    by (simp add: order_by_created_at_desc_def mset_order_by)
  show "set (order_by_created_at_desc ps) = set ps"
    using m by (metis set_mset_mset)
  show "sorted_wrt (\<lambda>a b. created_at a \<ge> created_at b) (order_by_created_at_desc ps)"
    by (simp add: order_by_created_at_desc_def sorted_order_by_fold)
qed

lemma returned_get_posts:
  "returned_posts (get_posts w d) =
     map (\<lambda>p. split_tags (with_tags w d p)) (order_by_created_at_desc (posts d))"
  by (simp add: returned_posts_def get_posts_def select_all_posts_def)

lemma returned_get_post_by_slug:
  "j \<in> set (returned_posts (get_post_by_slug w s d)) \<Longrightarrow>
   \<exists>p \<in> set (posts d). j = split_tags (with_tags w d p)"
  by (auto simp: returned_posts_def get_post_by_slug_def select_post_by_slug_def
      split: option.splits dest: find_SomeD)

text \<open>
  A post of the list read or of the by-slug read is a row of the posts table, and its tag
  array is made of the names of its group in some order.
\<close>

lemma returned_entry:
  assumes "j \<in> set (returned_posts (get_posts w d)) \<union>
               set (returned_posts (get_post_by_slug w' s d))"
  shows "post j \<in> set (posts d) \<and>
         (\<exists>ns. mset ns = mset (joined_tag_names d (p_id (post j))) \<and>
               tags_array j = split_names ns)"
proof -
  from assms have "(\<exists>p \<in> set (posts d). j = split_tags (with_tags w d p)) \<or>
                   (\<exists>p \<in> set (posts d). j = split_tags (with_tags w' d p))"
    by (auto simp: returned_get_posts order_by_created_at_desc_props
        dest: returned_get_post_by_slug)
  then have "\<exists>u. \<exists>p \<in> set (posts d). j = split_tags (with_tags u d p)"
    by blast
  then obtain u p where "p \<in> set (posts d)" "j = split_tags (with_tags u d p)"
    by blast
  then have "post j \<in> set (posts d)"
    and "tags_array j = split_names (visit_order (u (p_id (post j)))
                                       (joined_tag_names d (p_id (post j))))"
    by (simp_all add: split_tags_with_tags)
  then show ?thesis
    using mset_visit_order by blast
qed

section \<open>The handlers, statement by statement\<close>

lemma next_id_fresh_map: "x \<in> set xs \<Longrightarrow> f x \<noteq> next_id (map f xs)"
  using next_id_fresh [of "map f xs"] by (metis image_eqI list.set_map)

lemma insert_post_run:
  "db_run (InsertPost t (derive_slug (toLowerCase e) t) (req_content req) (req_excerpt req)
             (uploaded_path req) (status_or_draft req) (CURRENT_TIMESTAMP e)) d =
     (\<lparr>lastID = p_id (new_post_row e t req d), changes = 1\<rparr>,
      d\<lparr>posts := posts d @ [new_post_row e t req d],
        executed := executed d @
          [InsertPost t (derive_slug (toLowerCase e) t) (req_content req) (req_excerpt req)
             (uploaded_path req) (status_or_draft req) (CURRENT_TIMESTAMP e)]\<rparr>)"
  by (simp add: new_post_row_def Let_def)

lemma select_new_post:
  assumes "posts d' = posts d @ [new_post_row e t req d]"
  shows "select_post_by_id w (p_id (new_post_row e t req d)) d' =
           Some (with_tags w d' (new_post_row e t req d))"
proof -
  have "\<forall>p \<in> set (posts d). p_id p \<noteq> p_id (new_post_row e t req d)"
    by (simp add: new_post_row_def next_id_fresh_map)
  then show ?thesis
    using assms by (simp add: select_post_by_id_def find_appended_fresh)
qed

lemma tag_loop_values:
  "loop_values v = Inr ns \<Longrightarrow> tag_loop i v d = Inr (link_tags i ns d)"
  "loop_values v = Inl err \<Longrightarrow> tag_loop i v d = Inl err"
  by (simp_all add: tag_loop_def)

text \<open>Creating a post with a title, when the tag loop runs through and when it throws.\<close>

lemma create_post_with_title:
  fixes e :: env and t :: jsstring and req :: post_request and d :: db
  assumes "req_title req = Some t" and "loop_values (parse_tags e (req_tags req)) = Inr ns"
  defines "row \<equiv> new_post_row e t req d"
  defines "d1 \<equiv> snd (db_run (InsertPost t (derive_slug (toLowerCase e) t) (req_content req)
                          (req_excerpt req) (uploaded_path req) (status_or_draft req)
                          (CURRENT_TIMESTAMP e)) d)"
  defines "d2 \<equiv> link_tags (p_id row) ns d1"
  shows "create_post e req d =
           (Response 201 (PostBody (split_tags (with_tags (visit e) d2 row))), d2)"
proof -
  have d1: "posts d1 = posts d @ [row]"
    unfolding d1_def row_def by (simp add: insert_post_run del: db_run.simps)
  then have "posts d2 = posts d @ [row]"
    by (simp add: d2_def)
  then have "select_post_by_id (visit e) (p_id row) d2 = Some (with_tags (visit e) d2 row)"
    unfolding row_def by (rule select_new_post)
  then show ?thesis
    using assms(1) tag_loop_values(1) [OF assms(2)]
    unfolding create_post_def d2_def d1_def row_def
    by (simp add: insert_post_run Let_def del: db_run.simps)
qed

lemma create_post_throws:
  assumes "req_title req = Some t" and "loop_values (parse_tags e (req_tags req)) = Inl err"
  shows "create_post e req d =
           (Response 500 (ErrorBody ''Failed to create post''),
            snd (db_run (InsertPost t (derive_slug (toLowerCase e) t) (req_content req)
                          (req_excerpt req) (uploaded_path req) (status_or_draft req)
                          (CURRENT_TIMESTAMP e)) d))"
  using assms(1) tag_loop_values(2) [OF assms(2)]
  unfolding create_post_def
  by (simp add: insert_post_run Let_def del: db_run.simps)

lemma create_post_posts:
  assumes "req_title req = Some t"
  shows "posts (snd (create_post e req d)) = posts d @ [new_post_row e t req d]"
proof (cases "loop_values (parse_tags e (req_tags req))")
  case (Inl err)
  show ?thesis
    by (simp only: create_post_throws [OF assms Inl] snd_conv insert_post_run) simp
next
  case (Inr ns)
  show ?thesis
    by (simp only: create_post_with_title [OF assms Inr] snd_conv link_tags_posts
        insert_post_run) simp
qed

text \<open>Updating a post with a title, when the tag loop runs through and when it throws.\<close>

lemma update_post_with_title:
  fixes e :: env and i :: nat and req :: post_request and d :: db
  assumes "truthy (req_title req)" and "loop_values (parse_tags e (req_tags req)) = Inr ns"
  defines "d2 \<equiv> snd (db_run (DeletePostTags i) (snd (db_run (update_stmt req i) d)))"
  defines "d3 \<equiv> link_tags i ns d2"
  shows "update_post e i req d =
           (case select_post_by_id (visit e) i d3 of
              None \<Rightarrow> Response 500 (ErrorBody ''Failed to update post'')
            | Some r \<Rightarrow> Response 200 (PostBody (split_tags r)), d3)"
  using assms(1) tag_loop_values(1) [OF assms(2)]
  unfolding update_post_def d3_def d2_def update_stmt_def
  by (simp add: Let_def split: option.splits prod.splits)

lemma update_post_throws:
  assumes "truthy (req_title req)" and "loop_values (parse_tags e (req_tags req)) = Inl err"
  shows "update_post e i req d =
           (Response 500 (ErrorBody ''Failed to update post''),
            snd (db_run (DeletePostTags i) (snd (db_run (update_stmt req i) d))))"
  using assms(1) tag_loop_values(2) [OF assms(2)]
  unfolding update_post_def update_stmt_def
  by (simp add: Let_def split: option.splits prod.splits)

lemma after_delete_post_tags:
  defines "d2 \<equiv> \<lambda>req i d. snd (db_run (DeletePostTags i) (snd (db_run (update_stmt req i) d)))"
  shows "tags (d2 req i d) = tags d"
    and "post_tags (d2 req i d) = filter (\<lambda>r. pt_post_id r \<noteq> i) (post_tags d)"
    and "executed (d2 req i d) = executed d @ [update_stmt req i, DeletePostTags i]"
    and "posts (d2 req i d) =
           map (\<lambda>p. if p_id p = i
                  then set_post_fields (the (req_title req)) (req_content req) (req_excerpt req)
                         (status_or_draft req) (uploaded_path req) p
                  else p) (posts d)"
    and "resolved i (d2 req i d)"
    and "joined_tag_names (d2 req i d) i = []"
  by (simp_all add: d2_def update_stmt_def resolved_def joined_tag_names_def)

lemma update_post_state:
  assumes "truthy (req_title req)" and "loop_values (parse_tags e (req_tags req)) = Inr ns"
  shows "snd (update_post e i req d) =
           link_tags i ns (snd (db_run (DeletePostTags i) (snd (db_run (update_stmt req i) d))))"
  using update_post_with_title [OF assms, of i d] by simp

text \<open>
  The identifiers of the tag rows are distinct in the empty store, and every handler keeps
  them distinct.
\<close>

lemma tag_ids_stay_distinct:
  assumes "distinct (map t_id (tags d))"
  shows "distinct (map t_id (tags (snd (create_post e req d))))"
    and "distinct (map t_id (tags (snd (update_post e i req d))))"
    and "distinct (map t_id (tags (snd (delete_post i d))))"
    and "distinct (map t_id (tags empty_db))"
proof -
  show "distinct (map t_id (tags (snd (create_post e req d))))"
  proof (cases "req_title req")
    case None
    with assms show ?thesis by (simp add: create_post_def)
  next
    case (Some t)
    have d1: "distinct (map t_id (tags (snd (db_run (InsertPost t (derive_slug (toLowerCase e) t)
            (req_content req) (req_excerpt req) (uploaded_path req) (status_or_draft req)
            (CURRENT_TIMESTAMP e)) d))))"
      using assms by (simp add: Let_def)
    show ?thesis
    proof (cases "loop_values (parse_tags e (req_tags req))")
      case (Inl err)
      from d1 show ?thesis
        by (simp only: create_post_throws [OF Some Inl] snd_conv)
    next
      case (Inr ns)
      from d1 show ?thesis
        by (simp only: create_post_with_title [OF Some Inr] snd_conv link_tags_distinct_ids)
    qed
  qed
  show "distinct (map t_id (tags (snd (update_post e i req d))))"
  proof (cases "truthy (req_title req)")
    case True
    have d2: "distinct (map t_id
            (tags (snd (db_run (DeletePostTags i) (snd (db_run (update_stmt req i) d))))))"
      using assms by (simp only: after_delete_post_tags)
    show ?thesis
    proof (cases "loop_values (parse_tags e (req_tags req))")
      case (Inl err)
      from d2 show ?thesis
        by (simp only: update_post_throws [OF True Inl] snd_conv)
    next
      case (Inr ns)
      from d2 show ?thesis
        by (simp only: update_post_state [OF True Inr] link_tags_distinct_ids)
    qed
  next
    case False
    with assms show ?thesis by (simp add: update_post_def)
  qed
  show "distinct (map t_id (tags (snd (delete_post i d))))"
    using assms by (simp add: delete_post_def)
  show "distinct (map t_id (tags empty_db))"
    by (simp add: empty_db_def)
qed

section \<open>Evaluating the model on examples\<close>

text \<open>The defining equations the examples are computed with.\<close>

lemmas string_evals =
  str_def comma_def hyphen_def is_lower_alnum_def is_white_space_def js_trim_def

lemmas model_evals =
  create_post_def update_post_def delete_post_def get_posts_def get_post_by_slug_def
  parse_tags_def link_tags_def link_tag_def select_tag_by_name_def select_post_by_id_def
  select_post_by_slug_def select_all_posts_def with_tags_def group_concat_def
  joined_tag_names_def split_tags_def truthy_def status_or_draft_def uploaded_path_def
  order_by_created_at_desc_def derive_slug_def strip_edge_hyphens_def next_id_def
  returned_posts_def update_stmt_def set_post_fields_def is_link_stmt_def new_post_row_def
  split_names_def linked_tag_id_def tag_loop_def loop_values_def visit_order_def non_null_def
  Let_def

lemmas example_evals =
  example_db_def example_post_def example_request_def ascii_env_def json_env_def
  parsing_to_def no_json_def empty_db_def ascii_toLowerCase_def table_order_def backwards_def
  tag_array_def

section \<open>Creating a post without a title\<close>

text \<open>
  C1. The claim: a create request without a title is answered 400. The create handler has
  no check of the title: \<open>title.toLowerCase()\<close> throws on the missing title, the handler's
  own \<open>catch\<close> answers 500, and nothing is written. This holds for every environment,
  every other field of the request and every state of the store.
\<close>

theorem create_post_missing_title_500:
  "create_post e (req\<lparr>req_title := None\<rparr>) d =
     (Response 500 (ErrorBody ''Failed to create post''), d)"
  by (simp add: create_post_def)

text \<open>The update handler does check: the same request is answered 400 there.\<close>

lemma update_post_missing_title_400:
  "update_post e i (req\<lparr>req_title := None\<rparr>) d =
     (Response 400 (ErrorBody ''Title is required''), d)"
  by (simp add: update_post_def truthy_def)

section \<open>The slug of a new post\<close>

text \<open>
  C2. For every lowercasing and every title, the slug the server derives is the slug as the
  specification words it (runs outside \<open>[a-z0-9]\<close> replaced by one hyphen each, hyphens
  trimmed at both ends). It consists of characters of \<open>[a-z0-9]\<close> and hyphens, no hyphen
  is followed by a hyphen, and it neither starts nor ends with a hyphen. A create request
  with a title adds one row to the posts table, whatever becomes of the request after the
  insertion, and that row carries the title and this slug of it.
\<close>

theorem derive_slug_as_specified:
  "derive_slug lc t = spec_slug lc t \<and>
   set (derive_slug lc t) \<subseteq> {c. is_lower_alnum c} \<union> {hyphen} \<and>
   \<not> (\<exists>xs ys. derive_slug lc t = xs @ [hyphen, hyphen] @ ys) \<and>
   \<not> (\<exists>ys. derive_slug lc t = hyphen # ys) \<and>
   \<not> (\<exists>xs. derive_slug lc t = xs @ [hyphen]) \<and>
   (\<exists>p. posts (snd (create_post e (req\<lparr>req_title := Some t\<rparr>) d)) = posts d @ [p] \<and>
        title p = t \<and> slug p = derive_slug (toLowerCase e) t)"
proof -
  have "req_title (req\<lparr>req_title := Some t\<rparr>) = Some t"
    by simp
  from create_post_posts [OF this, of e d]
  have "\<exists>p. posts (snd (create_post e (req\<lparr>req_title := Some t\<rparr>) d)) = posts d @ [p] \<and>
        title p = t \<and> slug p = derive_slug (toLowerCase e) t"
    by (simp add: new_post_row_def)
  with derive_slug_shape [of lc t] show ?thesis
    by (elim conjE, intro conjI) assumption+
qed

lemma derive_slug_examples:
  "derive_slug ascii_toLowerCase (str ''  Hello,  World!! 2nd--post '') =
     str ''hello-world-2nd-post'' \<and>
   derive_slug ascii_toLowerCase (str ''!!!'') = [] \<and>
   derive_slug ascii_toLowerCase (str ''-a-'') = str ''a''"
  by (simp add: model_evals example_evals string_evals)

text \<open>
  What becomes of the request after the insertion depends on the tags field: the answer
  is 201 when the tag loop runs through, and 500, with the post inserted, when the field
  parses to \<open>null\<close>.
\<close>

lemma create_post_null_tags_500:
  "create_post (json_env TagsNull) (example_request (Some (str ''Tea Time'')) (Some (str ''null'')))
     empty_db =
     (Response 500 (ErrorBody ''Failed to create post''),
      \<lparr>posts = [\<lparr>p_id = 1, title = str ''Tea Time'', slug = str ''tea-time'', content = None,
                 excerpt = None, featured_image = None, status = str ''draft'',
                 created_at = 30\<rparr>],
       tags = [], post_tags = [],
       executed = [InsertPost (str ''Tea Time'') (str ''tea-time'') None None None
                     (str ''draft'') 30]\<rparr>)"
  by (simp add: model_evals example_evals string_evals)

section \<open>Updating the tags of a post\<close>

text \<open>
  C3. An update request with a title whose tags field gives the tag loop the values \<open>ns\<close>,
  on a store whose tag rows have distinct identifiers: after the UPDATE the handler deletes
  the associations of the post and only then runs the tag loop; afterwards the post has
  one association for each supplied value, the names of its tags are the supplied names,
  each as often as supplied, and the associations of the other posts are as before. With
  an empty tag list the post has no association left, and the response and every later
  read (list or by slug), in whatever order the store visits the rows, give that post the
  empty tag array, not the array of one empty string. With names that contain no comma,
  the response and every later read give that post the supplied names, in some order.
\<close>

theorem update_post_replaces_associations:
  assumes "truthy (req_title req)" and "distinct (map t_id (tags d))"
    and "loop_values (parse_tags e (req_tags req)) = Inr ns"
  shows "(\<exists>rest. executed (snd (update_post e i req d)) =
                   executed d @ [update_stmt req i, DeletePostTags i] @ rest \<and>
                 list_all (is_link_stmt i ns) rest) \<and>
         length (filter (\<lambda>r. pt_post_id r = i) (post_tags (snd (update_post e i req d)))) =
           length ns \<and>
         mset (joined_tag_names (snd (update_post e i req d)) i) = mset (non_null ns) \<and>
         filter (\<lambda>r. pt_post_id r \<noteq> i) (post_tags (snd (update_post e i req d))) =
           filter (\<lambda>r. pt_post_id r \<noteq> i) (post_tags d) \<and>
         (ns = [] \<longrightarrow>
            list_all (\<lambda>r. pt_post_id r \<noteq> i) (post_tags (snd (update_post e i req d))) \<and>
            (\<forall>j \<in> set (returned_posts (fst (update_post e i req d))) \<union>
                   set (returned_posts (get_posts w (snd (update_post e i req d)))) \<union>
                   set (returned_posts (get_post_by_slug w' s (snd (update_post e i req d)))).
               p_id (post j) = i \<longrightarrow> tags_array j = [] \<and> tags_array j \<noteq> [[]])) \<and>
         ((\<forall>n \<in> set (non_null ns). comma \<notin> set n) \<and> non_null ns \<noteq> [[]] \<longrightarrow>
            (\<forall>j \<in> set (returned_posts (fst (update_post e i req d))) \<union>
                   set (returned_posts (get_posts w (snd (update_post e i req d)))) \<union>
                   set (returned_posts (get_post_by_slug w' s (snd (update_post e i req d)))).
               p_id (post j) = i \<longrightarrow> mset (tags_array j) = mset (non_null ns)))"
proof -
  let ?d2 = "snd (db_run (DeletePostTags i) (snd (db_run (update_stmt req i) d)))"
  let ?d3 = "snd (update_post e i req d)"
  let ?reads = "set (returned_posts (fst (update_post e i req d))) \<union>
                set (returned_posts (get_posts w ?d3)) \<union>
                set (returned_posts (get_post_by_slug w' s ?d3))"
  have d3: "?d3 = link_tags i ns ?d2"
    using assms(1,3) by (rule update_post_state)
  have ids: "distinct (map t_id (tags ?d2))"
    using assms(2) by (simp only: after_delete_post_tags)
  have log: "\<exists>rest. executed ?d3 = executed d @ [update_stmt req i, DeletePostTags i] @ rest \<and>
                    list_all (is_link_stmt i ns) rest"
    using link_tags_executed [of i ns ?d2]
    by (simp only: d3 after_delete_post_tags append_assoc)
  have "filter (\<lambda>r. pt_post_id r = i) (filter (\<lambda>r. pt_post_id r \<noteq> i) (post_tags d)) = []"
    by (simp add: filter_empty_conv)
  then have count: "length (filter (\<lambda>r. pt_post_id r = i) (post_tags ?d3)) = length ns"
    by (simp only: d3 link_tags_count after_delete_post_tags) simp
  have names: "joined_tag_names ?d3 i = non_null ns"
    using link_tags_joined [OF ids after_delete_post_tags(5), of ns]
    by (simp only: d3 after_delete_post_tags) simp
  have others: "filter (\<lambda>r. pt_post_id r \<noteq> i) (post_tags ?d3) =
                filter (\<lambda>r. pt_post_id r \<noteq> i) (post_tags d)"
    by (simp only: d3 link_tags_other_posts after_delete_post_tags) simp
  have none: "list_all (\<lambda>r. pt_post_id r \<noteq> i) (post_tags ?d3)" if "ns = []"
    using count that by (simp add: list_all_iff filter_empty_conv)
  have response: "\<exists>p. j = split_tags (with_tags (visit e) ?d3 p)"
    if "j \<in> set (returned_posts (fst (update_post e i req d)))" for j
    using that update_post_with_title [OF assms(1,3), of i d]
    by (auto simp: returned_posts_def select_post_by_id_def d3 split: option.splits)
  have entry: "\<exists>ms. mset ms = mset (non_null ns) \<and> tags_array j = split_names ms"
    if post: "p_id (post j) = i" and read: "j \<in> ?reads" for j
  proof -
    have "\<exists>ms. mset ms = mset (joined_tag_names ?d3 (p_id (post j))) \<and>
               tags_array j = split_names ms"
    proof (cases "j \<in> set (returned_posts (fst (update_post e i req d)))")
      case True
      then obtain p where "j = split_tags (with_tags (visit e) ?d3 p)"
        using response by blast
      then have "tags_array j = split_names (visit_order (visit e (p_id (post j)))
                                  (joined_tag_names ?d3 (p_id (post j))))"
        by (simp add: split_tags_with_tags)
      then show ?thesis
        using mset_visit_order by blast
    next
      case False
      with read have "j \<in> set (returned_posts (get_posts w ?d3)) \<union>
                          set (returned_posts (get_post_by_slug w' s ?d3))"
        by blast
      from returned_entry [OF this] show ?thesis
        by blast
    qed
    with post names show ?thesis
      by simp
  qed
  have empty: "ns = [] \<longrightarrow>
            list_all (\<lambda>r. pt_post_id r \<noteq> i) (post_tags ?d3) \<and>
            (\<forall>j \<in> ?reads. p_id (post j) = i \<longrightarrow> tags_array j = [] \<and> tags_array j \<noteq> [[]])"
  proof (intro impI conjI ballI)
    assume "ns = []"
    then show "list_all (\<lambda>r. pt_post_id r \<noteq> i) (post_tags ?d3)"
      by (rule none)
  next
    fix j
    assume "ns = []" and "j \<in> ?reads" and "p_id (post j) = i"
    with entry [of j] have "tags_array j = split_names []"
      by simp
    then show "tags_array j = []" and "tags_array j \<noteq> [[]]"
      by (simp_all add: split_names_def)
  qed
  have same: "(\<forall>n \<in> set (non_null ns). comma \<notin> set n) \<and> non_null ns \<noteq> [[]] \<longrightarrow>
            (\<forall>j \<in> ?reads. p_id (post j) = i \<longrightarrow> mset (tags_array j) = mset (non_null ns))"
  proof (intro impI ballI)
    fix j
    assume free: "(\<forall>n \<in> set (non_null ns). comma \<notin> set n) \<and> non_null ns \<noteq> [[]]"
      and "j \<in> ?reads" and "p_id (post j) = i"
    with entry [of j] obtain ms
      where ms: "mset ms = mset (non_null ns)" "tags_array j = split_names ms"
      by blast
    from split_names_same_names [OF ms(1)] free have "mset (split_names ms) = mset (non_null ns)"
      by blast
    with ms(2) show "mset (tags_array j) = mset (non_null ns)"
      by simp
  qed
  from names have mnames: "mset (joined_tag_names ?d3 i) = mset (non_null ns)"
    by simp
  from log count mnames others empty same show ?thesis
    by (intro conjI) assumption+
qed

theorem update_post_replaces_associations_witness:
  "truthy (req_title (example_request (Some (str ''First'')) (Some (str ''c, a'')))) \<and>
   distinct (map t_id (tags example_db)) \<and>
   loop_values (parse_tags ascii_env
     (req_tags (example_request (Some (str ''First'')) (Some (str ''c, a''))))) =
     Inr [Some (str ''c''), Some (str ''a'')] \<and>
   map (\<lambda>j. (p_id (post j), mset (tags_array j)))
     (returned_posts (get_posts table_order example_db)) =
     [(2, {#}), (1, {#str ''a'', str ''b''#})] \<and>
   map (\<lambda>j. (p_id (post j), tags_array j))
     (returned_posts (get_posts backwards
        (snd (update_post ascii_env 1 (example_request (Some (str ''First'')) None)
                example_db)))) = [(2, []), (1, [])] \<and>
   map (\<lambda>j. (p_id (post j), mset (tags_array j)))
     (returned_posts (get_posts backwards
        (snd (update_post ascii_env 1
                (example_request (Some (str ''First'')) (Some (str ''c, a''))) example_db)))) =
     [(2, {#}), (1, {#str ''a'', str ''c''#})]"
proof -
  let ?req = "example_request (Some (str ''First'')) (Some (str ''c, a''))"
  have h1: "truthy (req_title ?req)"
    by (simp add: example_request_def truthy_def str_def)
  have h2: "distinct (map t_id (tags example_db))"
    by (simp add: example_db_def)
  have h3: "loop_values (parse_tags ascii_env (req_tags ?req)) =
              Inr [Some (str ''c''), Some (str ''a'')]"
    by (simp add: model_evals example_evals string_evals)
  note inst = update_post_replaces_associations
    [OF h1 h2 h3, of 1 backwards table_order "str ''first''"]
  have before: "map (\<lambda>j. (p_id (post j), mset (tags_array j)))
     (returned_posts (get_posts table_order example_db)) =
     [(2, {#}), (1, {#str ''a'', str ''b''#})]"
    by (simp add: model_evals example_evals string_evals)
  have emptied: "map (\<lambda>j. (p_id (post j), tags_array j))
     (returned_posts (get_posts backwards
        (snd (update_post ascii_env 1 (example_request (Some (str ''First'')) None)
                example_db)))) = [(2, []), (1, [])]"
    by (simp add: model_evals example_evals string_evals)
  have replaced: "map (\<lambda>j. (p_id (post j), mset (tags_array j)))
     (returned_posts (get_posts backwards (snd (update_post ascii_env 1 ?req example_db)))) =
     [(2, {#}), (1, {#str ''a'', str ''c''#})]"
    by (simp add: model_evals example_evals string_evals)
  from inst h1 h2 h3 before emptied replaced show ?thesis
    by (intro conjI) assumption+
qed

section \<open>Reading a post without tags\<close>

text \<open>
  C4. A post returned by the list or by the by-slug read that has no association row has
  the empty tag array, which is not the array of one empty string: for it the aggregate is
  NULL, the split is skipped for a NULL aggregate, and splitting the empty string instead
  would give one empty piece.
\<close>

theorem read_tags_special_case_no_tags:
  assumes "j \<in> set (returned_posts (get_posts w d)) \<union>
               set (returned_posts (get_post_by_slug w' s d))"
    and "\<forall>r \<in> set (post_tags d). pt_post_id r \<noteq> p_id (post j)"
  shows "tags_array j = [] \<and> tags_array j \<noteq> [[]] \<and>
         group_concat (joined_tag_names d (p_id (post j))) = None \<and>
         tags_array (split_tags (post j, None)) = [] \<and>
         js_split comma [] = [[]]"
proof -
  have "filter (\<lambda>r. pt_post_id r = p_id (post j)) (post_tags d) = []"
    using assms(2) by (simp add: filter_empty_conv)
  then have none: "joined_tag_names d (p_id (post j)) = []"
    by (simp add: joined_tag_names_def)
  with returned_entry [OF assms(1)] have "tags_array j = []"
    by (auto simp: split_names_def)
  with none show ?thesis
    by (simp add: group_concat_def split_tags_def truthy_def)
qed

theorem read_tags_special_case_no_tags_witness:
  "map (\<lambda>j. (p_id (post j), mset (tags_array j)))
     (returned_posts (get_posts backwards example_db)) =
     [(2, {#}), (1, {#str ''a'', str ''b''#})] \<and>
   map (\<lambda>j. (p_id (post j), tags_array j))
     (returned_posts (get_post_by_slug table_order (str ''second'') example_db)) = [(2, [])] \<and>
   list_all (\<lambda>r. pt_post_id r \<noteq> 2) (post_tags example_db)"
  using read_tags_special_case_no_tags
    [of "hd (returned_posts (get_posts backwards example_db))" backwards example_db
        table_order "str ''second''"]
  by (simp add: model_evals example_evals string_evals)

section \<open>Deleting a post\<close>

text \<open>
  C5. The delete handler runs two statements, first the deletion of the post's
  associations and then the deletion of the post row, and what they leave is the store
  without the associations and without the row. It answers 404 exactly when the second
  statement changed no row. For an identifier that no post has, the answer is 404 and the
  posts table is as it was, so it has as many rows as before.
\<close>

theorem delete_post_associations_first_then_row:
  "executed (snd (delete_post i d)) = executed d @ [DeletePostTags i, DeletePost i] \<and>
   post_tags (snd (delete_post i d)) = filter (\<lambda>r. pt_post_id r \<noteq> i) (post_tags d) \<and>
   posts (snd (delete_post i d)) = filter (\<lambda>p. p_id p \<noteq> i) (posts d) \<and>
   (changes (fst (db_run (DeletePost i) (snd (db_run (DeletePostTags i) d)))) = 0 \<longrightarrow>
      fst (delete_post i d) = Response 404 (ErrorBody ''Post not found'')) \<and>
   (changes (fst (db_run (DeletePost i) (snd (db_run (DeletePostTags i) d)))) \<noteq> 0 \<longrightarrow>
      fst (delete_post i d) = Response 200 SuccessBody) \<and>
   (i \<notin> p_id ` set (posts d) \<longrightarrow>
      status_code (fst (delete_post i d)) = 404 \<and>
      posts (snd (delete_post i d)) = posts d \<and>
      length (posts (snd (delete_post i d))) = length (posts d))"
proof -
  have absent: "filter (\<lambda>p. p_id p \<noteq> i) (posts d) = posts d \<and>
                filter (\<lambda>p. p_id p = i) (posts d) = []"
    if "i \<notin> p_id ` set (posts d)"
    using that by (auto simp: filter_id_conv filter_empty_conv)
  show ?thesis
    using absent by (auto simp: delete_post_def)
qed

theorem delete_post_associations_first_then_row_witness:
  "7 \<notin> p_id ` set (posts example_db) \<and>
   fst (delete_post 7 example_db) = Response 404 (ErrorBody ''Post not found'') \<and>
   length (posts (snd (delete_post 7 example_db))) = 2 \<and>
   fst (delete_post 1 example_db) = Response 200 SuccessBody \<and>
   post_tags (snd (delete_post 1 example_db)) = [] \<and>
   map p_id (posts (snd (delete_post 1 example_db))) = [2]"
  using delete_post_associations_first_then_row [of 7 example_db]
    delete_post_associations_first_then_row [of 1 example_db]
  by (simp add: example_db_def example_post_def)

section \<open>Updating a post that does not exist\<close>

text \<open>
  C6, as amended. An update request with a title, whose tags field gives the tag loop the
  values \<open>ns\<close>, for an identifier that no post has: the UPDATE changes no row and the posts
  table stays as it was, no check of existence comes before the next statements, the
  associations of the identifier are deleted and the tag loop runs to its end (it leaves
  one association per supplied value for the identifier), the re-fetch finds no row, and
  the response carries no post.
\<close>

theorem update_post_unknown_id:
  assumes "truthy (req_title req)" and "i \<notin> p_id ` set (posts d)"
    and "loop_values (parse_tags e (req_tags req)) = Inr ns"
  shows "changes (fst (db_run (update_stmt req i) d)) = 0 \<and>
         posts (snd (update_post e i req d)) = posts d \<and>
         (\<exists>rest. executed (snd (update_post e i req d)) =
                   executed d @ [update_stmt req i, DeletePostTags i] @ rest \<and>
                 list_all (is_link_stmt i ns) rest) \<and>
         length (filter (\<lambda>r. pt_post_id r = i) (post_tags (snd (update_post e i req d)))) =
           length ns \<and>
         select_post_by_id (visit e) i (snd (update_post e i req d)) = None \<and>
         returned_posts (fst (update_post e i req d)) = []"
proof -
  let ?d2 = "snd (db_run (DeletePostTags i) (snd (db_run (update_stmt req i) d)))"
  let ?d3 = "snd (update_post e i req d)"
  have d3: "?d3 = link_tags i ns ?d2"
    using assms(1,3) by (rule update_post_state)
  have absent: "\<forall>p \<in> set (posts d). p_id p \<noteq> i"
    using assms(2) by blast
  then have no_row: "filter (\<lambda>p. p_id p = i) (posts d) = []"
    by (simp add: filter_empty_conv)
  then have zero: "changes (fst (db_run (update_stmt req i) d)) = 0"
    by (simp add: update_stmt_def)
  have "map (\<lambda>p. if p_id p = i
                  then set_post_fields (the (req_title req)) (req_content req) (req_excerpt req)
                         (status_or_draft req) (uploaded_path req) p
                  else p) (posts d) = posts d"
    using absent by (simp add: map_idI)
  then have same: "posts ?d3 = posts d"
    by (simp only: d3 link_tags_posts after_delete_post_tags)
  have log: "\<exists>rest. executed ?d3 = executed d @ [update_stmt req i, DeletePostTags i] @ rest \<and>
                    list_all (is_link_stmt i ns) rest"
    using link_tags_executed [of i ns ?d2]
    by (simp only: d3 after_delete_post_tags append_assoc)
  have "filter (\<lambda>r. pt_post_id r = i) (filter (\<lambda>r. pt_post_id r \<noteq> i) (post_tags d)) = []"
    by (simp add: filter_empty_conv)
  then have count: "length (filter (\<lambda>r. pt_post_id r = i) (post_tags ?d3)) = length ns"
    by (simp only: d3 link_tags_count after_delete_post_tags) simp
  have refetch: "select_post_by_id (visit e) i ?d3 = None"
    using absent by (simp add: select_post_by_id_def same find_None_iff)
  then have "returned_posts (fst (update_post e i req d)) = []"
    using update_post_with_title [OF assms(1,3), of i d]
    by (simp add: d3 [symmetric] returned_posts_def)
  with zero same log count refetch show ?thesis
    by blast
qed

theorem update_post_unknown_id_witness:
  "truthy (req_title (example_request (Some (str ''Title'')) (Some (str ''x'')))) \<and>
   7 \<notin> p_id ` set (posts example_db) \<and>
   loop_values (parse_tags ascii_env
     (req_tags (example_request (Some (str ''Title'')) (Some (str ''x''))))) =
     Inr [Some (str ''x'')] \<and>
   posts (snd (update_post ascii_env 7
            (example_request (Some (str ''Title'')) (Some (str ''x''))) example_db)) =
     posts example_db \<and>
   executed (snd (update_post ascii_env 7
            (example_request (Some (str ''Title'')) (Some (str ''x''))) example_db)) =
     [UpdatePost (str ''Title'') None None (str ''draft'') None 7, DeletePostTags 7,
      InsertTag (Some (str ''x'')), InsertPostTag 7 3] \<and>
   post_tags (snd (update_post ascii_env 7
            (example_request (Some (str ''Title'')) (Some (str ''x''))) example_db)) =
     post_tags example_db @ [\<lparr>pt_post_id = 7, pt_tag_id = 3\<rparr>]"
proof -
  let ?req = "example_request (Some (str ''Title'')) (Some (str ''x''))"
  have h1: "truthy (req_title ?req)"
    by (simp add: example_request_def truthy_def str_def)
  have h2: "7 \<notin> p_id ` set (posts example_db)"
    by (simp add: example_db_def example_post_def)
  have h3: "loop_values (parse_tags ascii_env (req_tags ?req)) = Inr [Some (str ''x'')]"
    by (simp add: model_evals example_evals string_evals)
  note inst = update_post_unknown_id [OF h1 h2 h3]
  from inst have same: "posts (snd (update_post ascii_env 7 ?req example_db)) = posts example_db"
    by (elim conjE)
  have log: "executed (snd (update_post ascii_env 7 ?req example_db)) =
     [UpdatePost (str ''Title'') None None (str ''draft'') None 7, DeletePostTags 7,
      InsertTag (Some (str ''x'')), InsertPostTag 7 3]"
    by (simp add: model_evals example_evals string_evals)
  have left: "post_tags (snd (update_post ascii_env 7 ?req example_db)) =
     post_tags example_db @ [\<lparr>pt_post_id = 7, pt_tag_id = 3\<rparr>]"
    by (simp add: model_evals example_evals string_evals)
  from h1 h2 h3 same log left show ?thesis
    by (intro conjI) assumption+
qed

text \<open>
  The claim as stated has the operation succeed silently, for every update request, with
  no error before or during the tag loop. It does not: reading the tags of the row that
  the re-fetch did not find throws, and the request is answered 500; a request without a
  title is answered 400 before any statement is run; and a tags field that parses to
  \<open>null\<close> makes the tag loop throw at its head, after the associations were deleted.
\<close>

theorem update_post_unknown_id_counterexample:
  "7 \<notin> p_id ` set (posts example_db) \<and>
   fst (update_post ascii_env 7 (example_request (Some (str ''Title'')) (Some (str ''x'')))
          example_db) = Response 500 (ErrorBody ''Failed to update post'') \<and>
   status_code
     (fst (update_post ascii_env 7 (example_request (Some (str ''Title'')) (Some (str ''x'')))
             example_db)) \<noteq> 200 \<and>
   update_post ascii_env 7 (example_request None (Some (str ''x''))) example_db =
     (Response 400 (ErrorBody ''Title is required''), example_db) \<and>
   update_post (json_env TagsNull) 7
     (example_request (Some (str ''Title'')) (Some (str ''null''))) example_db =
     (Response 500 (ErrorBody ''Failed to update post''),
      example_db\<lparr>executed := [UpdatePost (str ''Title'') None None (str ''draft'') None 7,
                               DeletePostTags 7]\<rparr>)"
  by (simp add: model_evals example_evals string_evals)

section \<open>Tags are looked up or created\<close>

text \<open>
  C7, as amended. One turn of the tag loop for a name, at create and at update alike,
  leaves the tags table as it is when a row with the name exists and otherwise adds
  exactly one row with the name; it adds the association to a row of that name; names that
  were distinct in the table stay distinct through the whole loop. Hence, on a store whose
  tag rows have distinct identifiers and whose associations all belong to existing posts,
  creating a post with two distinct tags \<open>A\<close> and \<open>B\<close> that contain no comma is answered
  201 with a tag array that is a permutation of \<open>A\<close>, \<open>B\<close> without duplicates, whether or
  not other posts use these tags; the list read contains that post, and gives it such a
  tag array in whatever order the store visits the rows.
\<close>

theorem tags_reused_or_created_once:
  assumes "req_title req = Some t"
    and "parse_tags e (req_tags req) = TagsArray [Some A, Some B]"
    and "A \<noteq> B" and "comma \<notin> set A" and "comma \<notin> set B"
    and "distinct (map t_id (tags d))"
    and "\<forall>r \<in> set (post_tags d). pt_post_id r \<in> p_id ` set (posts d)"
  shows "tags (link_tag k (Some n) d0) =
           (if \<exists>t \<in> set (tags d0). t_name t = Some n then tags d0
            else tags d0 @ [\<lparr>t_id = next_id (map t_id (tags d0)), t_name = Some n\<rparr>]) \<and>
         (\<exists>t \<in> set (tags (link_tag k (Some n) d0)). t_name t = Some n \<and>
            post_tags (link_tag k (Some n) d0) =
              post_tags d0 @ [\<lparr>pt_post_id = k, pt_tag_id = t_id t\<rparr>]) \<and>
         (distinct (non_null (map t_name (tags d0))) \<longrightarrow>
            distinct (non_null (map t_name (tags (link_tags k ns d0))))) \<and>
         (\<exists>j d'. create_post e req d = (Response 201 (PostBody j), d') \<and>
            mset (tags_array j) = {#A, B#} \<and> distinct (tags_array j) \<and>
            (\<exists>j' \<in> set (returned_posts (get_posts w d')). p_id (post j') = p_id (post j)) \<and>
            (\<forall>j' \<in> set (returned_posts (get_posts w d')).
               p_id (post j') = p_id (post j) \<longrightarrow>
               mset (tags_array j') = {#A, B#} \<and> distinct (tags_array j')))"
proof -
  let ?row = "new_post_row e t req d"
  let ?d1 = "snd (db_run (InsertPost t (derive_slug (toLowerCase e) t) (req_content req)
                          (req_excerpt req) (uploaded_path req) (status_or_draft req)
                          (CURRENT_TIMESTAMP e)) d)"
  let ?d2 = "link_tags (p_id ?row) [Some A, Some B] ?d1"
  let ?j = "split_tags (with_tags (visit e) ?d2 ?row)"
  have table: "tags (link_tag k (Some n) d0) =
           (if \<exists>t \<in> set (tags d0). t_name t = Some n then tags d0
            else tags d0 @ [\<lparr>t_id = next_id (map t_id (tags d0)), t_name = Some n\<rparr>])"
    by (auto simp: link_tag_tags select_tag_by_name_None image_iff)
  have one_row: "\<exists>t \<in> set (tags (link_tag k (Some n) d0)). t_name t = Some n \<and>
            post_tags (link_tag k (Some n) d0) =
              post_tags d0 @ [\<lparr>pt_post_id = k, pt_tag_id = t_id t\<rparr>]"
    using linked_tag_row [of k "Some n" d0] by (auto simp: link_tag_post_tags)
  have kept: "distinct (non_null (map t_name (tags d0))) \<longrightarrow>
            distinct (non_null (map t_name (tags (link_tags k ns d0))))"
    by (simp add: link_tags_distinct_names)
  have loop: "loop_values (parse_tags e (req_tags req)) = Inr [Some A, Some B]"
    by (simp add: assms(2) loop_values_def)
  have created: "create_post e req d = (Response 201 (PostBody ?j), ?d2)"
    by (rule create_post_with_title [OF assms(1) loop])
  have d1: "tags ?d1 = tags d" "post_tags ?d1 = post_tags d"
    by (simp_all add: Let_def)
  have fresh: "\<forall>r \<in> set (post_tags d). pt_post_id r \<noteq> p_id ?row"
  proof
    fix r assume "r \<in> set (post_tags d)"
    with assms(7) obtain p where "p \<in> set (posts d)" "pt_post_id r = p_id p" by blast
    then show "pt_post_id r \<noteq> p_id ?row"
      by (simp add: new_post_row_def next_id_fresh_map)
  qed
  then have "filter (\<lambda>r. pt_post_id r = p_id ?row) (post_tags ?d1) = []"
    by (simp only: d1) (simp add: filter_empty_conv)
  then have start: "joined_tag_names ?d1 (p_id ?row) = []"
    by (simp only: joined_tag_names_def) simp
  have res: "resolved (p_id ?row) ?d1"
    using fresh by (simp only: resolved_def d1) blast
  have ids: "distinct (map t_id (tags ?d1))"
    using assms(6) by (simp only: d1)
  have names: "joined_tag_names ?d2 (p_id ?row) = [A, B]"
    using link_tags_joined [OF ids res, of "[Some A, Some B]"] by (simp only: start) simp
  have free: "(\<forall>n \<in> set [A, B]. comma \<notin> set n) \<and> [A, B] \<noteq> [[]]"
    using assms(4,5) by simp
  have any_order: "mset (split_names ms) = {#A, B#} \<and> distinct (split_names ms)"
    if "mset ms = mset [A, B]" for ms
  proof -
    from split_names_same_names [OF that] free have m: "mset (split_names ms) = mset [A, B]"
      by blast
    moreover have "distinct [A, B]"
      using assms(3) by simp
    ultimately have "distinct (split_names ms)"
      by (metis mset_eq_imp_distinct_iff)
    with m show ?thesis by simp
  qed
  have out: "mset (tags_array ?j) = {#A, B#} \<and> distinct (tags_array ?j)"
    by (simp only: split_tags_with_tags names) (rule any_order, simp)
  have rows: "posts ?d2 = posts d @ [?row]"
    by (simp add: Let_def new_post_row_def)
  then have "?row \<in> set (order_by_created_at_desc (posts ?d2))"
    by (simp add: order_by_created_at_desc_props)
  then have "split_tags (with_tags w ?d2 ?row) \<in> set (returned_posts (get_posts w ?d2))"
    by (simp add: returned_get_posts)
  then have listed: "\<exists>j' \<in> set (returned_posts (get_posts w ?d2)). p_id (post j') = p_id (post ?j)"
    by (rule bexI [rotated]) (simp add: split_tags_with_tags)
  have list_tags: "\<forall>j' \<in> set (returned_posts (get_posts w ?d2)).
               p_id (post j') = p_id (post ?j) \<longrightarrow>
               mset (tags_array j') = {#A, B#} \<and> distinct (tags_array j')"
  proof (intro ballI impI)
    fix j'
    assume "j' \<in> set (returned_posts (get_posts w ?d2))" and same: "p_id (post j') = p_id (post ?j)"
    then have "j' \<in> set (returned_posts (get_posts w ?d2)) \<union>
                    set (returned_posts (get_post_by_slug w [] ?d2))"
      by simp
    from returned_entry [OF this] obtain ms
      where "mset ms = mset (joined_tag_names ?d2 (p_id (post j')))" "tags_array j' = split_names ms"
      by blast
    with same names have "mset ms = mset [A, B]" "tags_array j' = split_names ms"
      by (simp_all add: split_tags_with_tags)
    with any_order [of ms] show "mset (tags_array j') = {#A, B#} \<and> distinct (tags_array j')"
      by simp
  qed
  from created out listed list_tags
  have "\<exists>j d'. create_post e req d = (Response 201 (PostBody j), d') \<and>
            mset (tags_array j) = {#A, B#} \<and> distinct (tags_array j) \<and>
            (\<exists>j' \<in> set (returned_posts (get_posts w d')). p_id (post j') = p_id (post j)) \<and>
            (\<forall>j' \<in> set (returned_posts (get_posts w d')).
               p_id (post j') = p_id (post j) \<longrightarrow>
               mset (tags_array j') = {#A, B#} \<and> distinct (tags_array j'))"
    by (intro exI conjI) (assumption | elim conjE)+
  with table one_row kept show ?thesis
    by (intro conjI) assumption+
qed

theorem tags_reused_or_created_once_witness:
  "req_title (example_request (Some (str ''Tea Time'')) (Some (str ''[\"c\",\"a\"]''))) =
     Some (str ''Tea Time'') \<and>
   parse_tags (json_env (tag_array [''c'', ''a'']))
     (req_tags (example_request (Some (str ''Tea Time'')) (Some (str ''[\"c\",\"a\"]'')))) =
     TagsArray [Some (str ''c''), Some (str ''a'')] \<and>
   str ''c'' \<noteq> str ''a'' \<and> comma \<notin> set (str ''c'') \<and> comma \<notin> set (str ''a'') \<and>
   distinct (map t_id (tags example_db)) \<and>
   list_all (\<lambda>r. pt_post_id r \<in> p_id ` set (posts example_db)) (post_tags example_db) \<and>
   map (\<lambda>j. mset (tags_array j))
     (returned_posts (fst (create_post (json_env (tag_array [''c'', ''a'']))
        (example_request (Some (str ''Tea Time'')) (Some (str ''[\"c\",\"a\"]'')))
        example_db))) = [{#str ''a'', str ''c''#}] \<and>
   map (\<lambda>j. (p_id (post j), mset (tags_array j)))
     (returned_posts (get_posts backwards
        (snd (create_post (json_env (tag_array [''c'', ''a'']))
           (example_request (Some (str ''Tea Time'')) (Some (str ''[\"c\",\"a\"]'')))
           example_db)))) =
     [(3, {#str ''a'', str ''c''#}), (2, {#}), (1, {#str ''a'', str ''b''#})] \<and>
   map t_name (tags (snd (create_post (json_env (tag_array [''c'', ''a'']))
        (example_request (Some (str ''Tea Time'')) (Some (str ''[\"c\",\"a\"]'')))
        example_db))) = [Some (str ''a''), Some (str ''b''), Some (str ''c'')]"
proof -
  let ?req = "example_request (Some (str ''Tea Time'')) (Some (str ''[\"c\",\"a\"]''))"
  let ?env = "json_env (tag_array [''c'', ''a''])"
  have h1: "req_title ?req = Some (str ''Tea Time'')"
    by (simp add: example_request_def)
  have h2: "parse_tags ?env (req_tags ?req) = TagsArray [Some (str ''c''), Some (str ''a'')]"
    by (simp add: model_evals example_evals string_evals)
  have h3: "str ''c'' \<noteq> str ''a''"
    by (simp add: string_evals)
  have h4: "comma \<notin> set (str ''c'')" and h5: "comma \<notin> set (str ''a'')"
    by (simp_all add: string_evals)
  have h6: "distinct (map t_id (tags example_db))"
    by (simp add: example_db_def)
  have h7: "\<forall>r \<in> set (post_tags example_db). pt_post_id r \<in> p_id ` set (posts example_db)"
    by (simp add: example_db_def example_post_def)
  note inst = tags_reused_or_created_once [OF h1 h2 h3 h4 h5 h6 h7, of 3 "str ''c''"
      example_db "[Some (str ''c''), Some (str ''a'')]" backwards]
  have read_back: "map (\<lambda>j. mset (tags_array j))
     (returned_posts (fst (create_post ?env ?req example_db))) = [{#str ''a'', str ''c''#}]"
    by (simp add: model_evals example_evals string_evals)
  have listed: "map (\<lambda>j. (p_id (post j), mset (tags_array j)))
     (returned_posts (get_posts backwards (snd (create_post ?env ?req example_db)))) =
     [(3, {#str ''a'', str ''c''#}), (2, {#}), (1, {#str ''a'', str ''b''#})]"
    by (simp add: model_evals example_evals string_evals)
  have table: "map t_name (tags (snd (create_post ?env ?req example_db))) =
                 [Some (str ''a''), Some (str ''b''), Some (str ''c'')]"
    by (simp add: model_evals example_evals string_evals)
  from h7 have h7': "list_all (\<lambda>r. pt_post_id r \<in> p_id ` set (posts example_db))
                       (post_tags example_db)"
    by (simp only: list_all_iff)
  from inst h1 h2 h3 h4 h5 h6 h7' read_back listed table show ?thesis
    by (intro conjI) assumption+
qed

text \<open>
  The claim as stated, for all distinct \<open>A\<close> and \<open>B\<close>, fails for a name with a comma: a
  post created with the tags \<open>x,y\<close> and \<open>z\<close> is read back with the three tags \<open>x\<close>, \<open>y\<close>
  and \<open>z\<close>, in whatever order the store visits the rows.
\<close>

theorem comma_in_tag_name_counterexample:
  "str ''x,y'' \<noteq> str ''z'' \<and>
   map (\<lambda>j. mset (tags_array j))
     (returned_posts (fst (create_post (json_env (tag_array [''x,y'', ''z'']))
        (example_request (Some (str ''Tea Time'')) (Some (str ''[\"x,y\",\"z\"]'')))
        example_db))) = [{#str ''x'', str ''y'', str ''z''#}] \<and>
   map (\<lambda>j. mset (tags_array j))
     (returned_posts (fst (create_post
        ((json_env (tag_array [''x,y'', ''z'']))\<lparr>visit := backwards\<rparr>)
        (example_request (Some (str ''Tea Time'')) (Some (str ''[\"x,y\",\"z\"]'')))
        example_db))) = [{#str ''x'', str ''y'', str ''z''#}] \<and>
   {#str ''x'', str ''y'', str ''z''#} \<noteq> {#str ''x,y'', str ''z''#}"
proof -
  have "size {#str ''x'', str ''y'', str ''z''#} \<noteq> size {#str ''x,y'', str ''z''#}"
    by simp
  then have "{#str ''x'', str ''y'', str ''z''#} \<noteq> {#str ''x,y'', str ''z''#}"
    by metis
  then show ?thesis
    by (simp add: model_evals example_evals string_evals)
qed

text \<open>
  Why the associations must belong to existing posts: an update of an identifier that no
  post has leaves associations behind, and the next post created under that identifier
  is read back with them.
\<close>

lemma stale_association_inherited:
  "fst (update_post (json_env (tag_array [''x''])) 1
          (example_request (Some (str ''Title'')) (Some (str ''[\"x\"]''))) empty_db) =
     Response 500 (ErrorBody ''Failed to update post'') \<and>
   map (\<lambda>j. mset (tags_array j))
     (returned_posts (fst (create_post (json_env (tag_array [''a'', ''b'']))
        (example_request (Some (str ''Tea Time'')) (Some (str ''[\"a\",\"b\"]'')))
        (snd (update_post (json_env (tag_array [''x''])) 1
                (example_request (Some (str ''Title'')) (Some (str ''[\"x\"]''))) empty_db))))) =
     [{#str ''a'', str ''b'', str ''x''#}]"
  by (simp add: model_evals example_evals string_evals)

section \<open>The order of the list\<close>

text \<open>
  C8. The list read answers 200 with all posts of the table, each once, and of every two
  neighbours in the array the first was created no earlier than the second (strictly
  later when their creation times differ).
\<close>

theorem get_posts_newest_first:
  "\<exists>js. get_posts w d = Response 200 (PostsBody js) \<and>
         mset (map post js) = mset (posts d) \<and>
         (\<forall>k. Suc k < length js \<longrightarrow>
            created_at (post (js ! Suc k)) \<le> created_at (post (js ! k)) \<and>
            (created_at (post (js ! k)) \<noteq> created_at (post (js ! Suc k)) \<longrightarrow>
               created_at (post (js ! Suc k)) < created_at (post (js ! k))))"
proof -
  let ?ps = "order_by_created_at_desc (posts d)"
  let ?js = "map (\<lambda>p. split_tags (with_tags w d p)) ?ps"
  have posts: "map post ?js = ?ps"
    by (simp add: split_tags_with_tags comp_def)
  have "created_at (?ps ! Suc k) \<le> created_at (?ps ! k)" if "Suc k < length ?ps" for k
    using order_by_created_at_desc_props(3) [of "posts d"] that
    by (simp add: sorted_wrt_iff_nth_less)
  then have "\<forall>k. Suc k < length ?js \<longrightarrow>
            created_at (post (?js ! Suc k)) \<le> created_at (post (?js ! k)) \<and>
            (created_at (post (?js ! k)) \<noteq> created_at (post (?js ! Suc k)) \<longrightarrow>
               created_at (post (?js ! Suc k)) < created_at (post (?js ! k)))"
    by (simp add: split_tags_with_tags le_neq_implies_less)
  moreover have "get_posts w d = Response 200 (PostsBody ?js)"
    by (simp add: get_posts_def select_all_posts_def)
  moreover have "mset (map post ?js) = mset (posts d)"
    by (simp only: posts order_by_created_at_desc_props)
  ultimately show ?thesis by blast
qed

theorem get_posts_newest_first_witness:
  "map (\<lambda>j. (title (post j), created_at (post j)))
     (returned_posts (get_posts backwards
        (snd (create_post (ascii_env\<lparr>CURRENT_TIMESTAMP := 20\<rparr>)
                (example_request (Some (str ''Later'')) None)
           (snd (create_post (ascii_env\<lparr>CURRENT_TIMESTAMP := 10\<rparr>)
                   (example_request (Some (str ''Earlier'')) None) empty_db)))))) =
     [(str ''Later'', 20), (str ''Earlier'', 10)]"
  using get_posts_newest_first
    [of backwards "snd (create_post (ascii_env\<lparr>CURRENT_TIMESTAMP := 20\<rparr>)
                (example_request (Some (str ''Later'')) None)
           (snd (create_post (ascii_env\<lparr>CURRENT_TIMESTAMP := 10\<rparr>)
                   (example_request (Some (str ''Earlier'')) None) empty_db)))"]
  by (simp add: model_evals example_evals string_evals)

section \<open>The tags field of a request\<close>

text \<open>
  C9. Both handlers take their tag list from \<open>parse_tags\<close>. An absent tags field gives the
  empty list; a field on which \<open>JSON.parse\<close> throws is split at the commas, every piece
  trimmed and the empty pieces dropped, and these pieces are what the tag loop visits; a
  non-empty field that parses gives the parsed value.
\<close>

theorem parse_tags_json_or_comma_separated:
  "parse_tags e None = TagsArray [] \<and>
   loop_values (parse_tags e None) = Inr [] \<and>
   (JSON_parse e s = None \<longrightarrow>
      parse_tags e (Some s) =
        TagsArray (map Some (filter (\<lambda>t. t \<noteq> []) (map js_trim (js_split comma s)))) \<and>
      loop_values (parse_tags e (Some s)) =
        Inr (map Some (filter (\<lambda>t. t \<noteq> []) (map js_trim (js_split comma s))))) \<and>
   (s \<noteq> [] \<and> JSON_parse e s = Some v \<longrightarrow> parse_tags e (Some s) = v)"
  by (simp add: parse_tags_def truthy_def js_trim_def loop_values_def)

theorem parse_tags_json_or_comma_separated_witness:
  "JSON_parse ascii_env (str '' a,b ,, c'') = None \<and>
   parse_tags ascii_env (Some (str '' a,b ,, c'')) =
     TagsArray [Some (str ''a''), Some (str ''b''), Some (str ''c'')]"
  using parse_tags_json_or_comma_separated [of ascii_env "str '' a,b ,, c''"]
  by (simp add: ascii_env_def no_json_def string_evals)

text \<open>
  What the handlers make of a tags field that parses to something else than an array: a
  string gives its characters as tags, a number gives no tag, and \<open>null\<close> and an object with
  a positive \<open>length\<close> make the tag loop throw after the post was inserted.
\<close>

lemma tags_field_other_json_values:
  "map (\<lambda>j. mset (tags_array j))
     (returned_posts (fst (create_post (json_env (TagsString (str ''ab'')))
        (example_request (Some (str ''Tea Time'')) (Some (str ''\"ab\"''))) empty_db))) =
     [{#str ''a'', str ''b''#}] \<and>
   map tags_array
     (returned_posts (fst (create_post (json_env TagsNoLength)
        (example_request (Some (str ''Tea Time'')) (Some (str ''5''))) empty_db))) = [[]] \<and>
   fst (create_post (json_env TagsNull)
          (example_request (Some (str ''Tea Time'')) (Some (str ''null''))) empty_db) =
     Response 500 (ErrorBody ''Failed to create post'') \<and>
   fst (create_post (json_env TagsNotIterable)
          (example_request (Some (str ''Tea Time'')) (Some (str ''{\"length\":1}''))) empty_db) =
     Response 500 (ErrorBody ''Failed to create post'')"
  by (simp add: model_evals example_evals string_evals)

section \<open>Joining and splitting the tag names\<close>

text \<open>
  C10, as amended. For a post returned by the list or by the by-slug read, in whatever
  order the store visits the rows, the tag array is the split at the commas of the
  comma-joined names of its tags, taken in some order, except that it is empty when the
  post has no tag name or the empty name alone. The array holds exactly the names of the
  tags, each as often as the post has it, exactly when no name contains a comma and the
  names are not the empty name alone; a single name with a comma comes back as more than
  one entry.
\<close>

theorem read_tags_split_of_joined_names:
  assumes "j \<in> set (returned_posts (get_posts w d)) \<union>
               set (returned_posts (get_post_by_slug w' s d))"
  shows "(\<exists>ns. mset ns = mset (joined_tag_names d (p_id (post j))) \<and>
               tags_array j =
                 (if ns = [] \<or> ns = [[]] then [] else js_split comma (js_join comma ns))) \<and>
         (mset (tags_array j) = mset (joined_tag_names d (p_id (post j))) \<longleftrightarrow>
            (\<forall>n \<in> set (joined_tag_names d (p_id (post j))). comma \<notin> set n) \<and>
            joined_tag_names d (p_id (post j)) \<noteq> [[]]) \<and>
         (\<forall>n. joined_tag_names d (p_id (post j)) = [n] \<and> comma \<in> set n \<longrightarrow>
            length (tags_array j) > 1)"
proof -
  obtain ns where ns: "mset ns = mset (joined_tag_names d (p_id (post j)))"
      "tags_array j = split_names ns"
    using returned_entry [OF assms] by blast
  have first: "\<exists>ns. mset ns = mset (joined_tag_names d (p_id (post j))) \<and>
               tags_array j =
                 (if ns = [] \<or> ns = [[]] then [] else js_split comma (js_join comma ns))"
    using ns unfolding split_names_def by blast
  have second: "mset (tags_array j) = mset (joined_tag_names d (p_id (post j))) \<longleftrightarrow>
            (\<forall>n \<in> set (joined_tag_names d (p_id (post j))). comma \<notin> set n) \<and>
            joined_tag_names d (p_id (post j)) \<noteq> [[]]"
    using split_names_same_names [OF ns(1)] by (simp only: ns(2))
  have third: "\<forall>n. joined_tag_names d (p_id (post j)) = [n] \<and> comma \<in> set n \<longrightarrow>
            length (tags_array j) > 1"
  proof (intro allI impI)
    fix n
    assume single: "joined_tag_names d (p_id (post j)) = [n] \<and> comma \<in> set n"
    with ns(1) have "ns = [n]"
      by (simp only: mset_single)
    moreover from single have "length (split_names [n]) > 1"
      by (simp only: split_names_comma)
    ultimately show "length (tags_array j) > 1"
      using ns(2) by simp
  qed
  from first second third show ?thesis
    by (intro conjI) assumption+
qed

theorem read_tags_split_of_joined_names_witness:
  "joined_tag_names
     (snd (create_post (json_env (tag_array [''x,y'']))
        (example_request (Some (str ''Tea Time'')) (Some (str ''[\"x,y\"]''))) empty_db)) 1 =
     [str ''x,y''] \<and>
   map (\<lambda>j. (p_id (post j), tags_array j)) (returned_posts (get_posts backwards
     (snd (create_post (json_env (tag_array [''x,y'']))
        (example_request (Some (str ''Tea Time'')) (Some (str ''[\"x,y\"]''))) empty_db)))) =
     [(1, [str ''x'', str ''y''])]"
proof -
  let ?d = "snd (create_post (json_env (tag_array [''x,y'']))
        (example_request (Some (str ''Tea Time'')) (Some (str ''[\"x,y\"]''))) empty_db)"
  have names: "joined_tag_names ?d 1 = [str ''x,y'']"
    by (simp add: model_evals example_evals string_evals)
  have listed: "map (\<lambda>j. (p_id (post j), tags_array j)) (returned_posts (get_posts backwards ?d)) =
     [(1, [str ''x'', str ''y''])]"
    by (simp add: model_evals example_evals string_evals)
  then have "hd (returned_posts (get_posts backwards ?d)) \<in>
               set (returned_posts (get_posts backwards ?d)) \<union>
               set (returned_posts (get_post_by_slug table_order (str ''tea-time'') ?d))"
    by (cases "returned_posts (get_posts backwards ?d)") simp_all
  note inst = read_tags_split_of_joined_names [OF this]
  from inst names listed show ?thesis
    by (intro conjI) assumption+
qed

text \<open>
  The claim as stated fails for a post whose only tag has the empty name: no name contains
  a comma, the split of the joined names is the array of one empty string, and both reads
  return the empty array.
\<close>

theorem empty_tag_name_counterexample:
  "joined_tag_names
     (snd (create_post (json_env (TagsArray [Some []]))
        (example_request (Some (str ''Tea Time'')) (Some (str ''[\"\"]''))) empty_db)) 1 = [[]] \<and>
   comma \<notin> set (hd (joined_tag_names
     (snd (create_post (json_env (TagsArray [Some []]))
        (example_request (Some (str ''Tea Time'')) (Some (str ''[\"\"]''))) empty_db)) 1)) \<and>
   js_split comma (js_join comma (joined_tag_names
     (snd (create_post (json_env (TagsArray [Some []]))
        (example_request (Some (str ''Tea Time'')) (Some (str ''[\"\"]''))) empty_db)) 1)) = [[]] \<and>
   map tags_array (returned_posts (get_posts table_order
     (snd (create_post (json_env (TagsArray [Some []]))
        (example_request (Some (str ''Tea Time'')) (Some (str ''[\"\"]''))) empty_db)))) = [[]] \<and>
   map tags_array (returned_posts (get_post_by_slug table_order (str ''tea-time'')
     (snd (create_post (json_env (TagsArray [Some []]))
        (example_request (Some (str ''Tea Time'')) (Some (str ''[\"\"]''))) empty_db)))) = [[]]"
  by (simp add: model_evals example_evals string_evals)

end
